theory Spec2Isabelle
  imports Main "HOL-Library.Char_ord" "HOL-Library.List_Lexorder" "HOL-Library.Multiset"
begin

section \<open>The archive index generator (archive-generator.py)\<close>

text \<open>
  The program walks a directory, builds a tree of folder and file nodes, counts the files
  and writes the tree as JSON. The embedding keeps the three functions of the source
  (\<open>scan_directory\<close>, \<open>count_files\<close>, \<open>save_archive_index\<close>), their enclosing
  \<open>generate_archive_index\<close> and \<open>main\<close>, and makes explicit what they read from
  the operating system.

  Strings are byte lists (UTF-8); the order of \<open>list.sort()\<close> on Python strings is the
  order of code points, which on UTF-8 bytes is the lexicographic order of the bytes.
\<close>

subsection \<open>Exceptions and printed lines\<close>

text \<open>
  The exceptions the source distinguishes: \<open>except PermissionError\<close> (line 62) and
  \<open>except Exception\<close> (line 64), which catches all the others below.
  \<open>OtherException\<close> carries the text of \<open>str(e)\<close>.
\<close>

datatype exn =
    PermissionError
  | NotADirectoryError
  | FileNotFoundError
  | UnicodeEncodeError
  | RecursionError
  | OtherException string

text \<open>
  One constructor for each \<open>print\<close> whose text depends on the run; the banner, the
  prompts and the closing instructions of \<open>main\<close> are fixed text and are left out.
  \<^item> \<open>Warning_permission_denied p\<close>: line 63, \<open>Warning: Permission denied for {path}\<close>
  \<^item> \<open>Warning_error_processing p e\<close>: line 65, \<open>Warning: Error processing {path}: {str(e)}\<close>
  \<^item> \<open>Scanning_folder_structure\<close>: line 73
  \<^item> \<open>Found_files n\<close>: line 86, \<open>Found {file_count} files\<close>
  \<^item> \<open>Error_folder_not_found p\<close>: lines 114-115
  \<^item> \<open>Error_not_a_folder p\<close>: line 119
  \<^item> \<open>Archive_index_saved p\<close>: line 95
  \<^item> \<open>Success\<close>: lines 147-158
\<close>

datatype message =
    Warning_permission_denied string
  | Warning_error_processing string exn
  | Scanning_folder_structure
  | Found_files int
  | Error_folder_not_found string
  | Error_not_a_folder string
  | Archive_index_saved string
  | Success

subsection \<open>The tree that is built\<close>

text \<open>
  The dictionaries \<open>{"name", "type": "folder", "children"}\<close> and
  \<open>{"name", "type": "file", "path"}\<close>; the \<open>type\<close> tag is the constructor.
  \<open>node.get("children", [])\<close> of a file dictionary is the empty list.
\<close>

datatype node =
    Folder (node_name: string) (node_children: "node list")
  | File (node_name: string) (node_path: string)
where
  "node_children (File n p) = []"
| "node_path (Folder n cs) = []"

fun is_file :: "node \<Rightarrow> bool" where
  "is_file (File n p) = True"
| "is_file (Folder n cs) = False"

fun is_folder :: "node \<Rightarrow> bool" where
  "is_folder (Folder n cs) = True"
| "is_folder (File n p) = False"

subsection \<open>The file system the scan reads\<close>

text \<open>
  A snapshot of what a path resolves to. \<open>Dir items\<close> is a directory whose listing
  succeeds, \<open>items\<close> being the names \<open>os.listdir\<close> returns, in the order it returns
  them, each with the entry that the joined path resolves to. \<open>Unreadable e\<close> is a
  directory whose listing raises \<open>e\<close>. \<open>Symlink t\<close> is a symbolic link that resolves to
  \<open>t\<close>; \<open>Absent\<close> is a path that resolves to nothing, so a dangling link is
  \<open>Symlink Absent\<close>. \<open>Special\<close> is a device, socket or FIFO. The snapshot is a
  finite tree that does not change during the scan: a cycle of links and an entry that
  vanishes between the listing and its use are not represented.
\<close>

datatype fsentry =
    Dir "(string \<times> fsentry) list"
  | Unreadable exn
  | RegularFile
  | Special
  | Symlink fsentry
  | Absent

text \<open>
  \<open>os.path.exists\<close>, \<open>os.path.isdir\<close> and \<open>os.path.isfile\<close> follow symbolic links
  and never raise; \<open>os.listdir\<close> follows them too and raises on what is not a readable
  directory.
\<close>

fun path_exists :: "fsentry \<Rightarrow> bool" where
  "path_exists Absent = False"
| "path_exists (Symlink t) = path_exists t"
| "path_exists e = True"

fun isdir :: "fsentry \<Rightarrow> bool" where
  "isdir (Dir items) = True"
| "isdir (Unreadable e) = True"
| "isdir (Symlink t) = isdir t"
| "isdir e = False"

fun isfile :: "fsentry \<Rightarrow> bool" where
  "isfile RegularFile = True"
| "isfile (Symlink t) = isfile t"
| "isfile e = False"

fun listdir :: "fsentry \<Rightarrow> exn + (string \<times> fsentry) list" where
  "listdir (Dir items) = Inr items"
| "listdir (Unreadable e) = Inl e"
| "listdir (Symlink t) = listdir t"
| "listdir Absent = Inl FileNotFoundError"
| "listdir e = Inl NotADirectoryError"

subsection \<open>The host: path functions and the output file\<close>

text \<open>
  The library functions the source calls on path strings are parameters:
  \<open>os.path.join\<close>, \<open>os.path.relpath\<close> (which can raise) and \<open>os.path.basename\<close>.
  \<open>open_w p\<close> is the exception \<open>open(p, 'w')\<close> raises, if any, and \<open>json_dump p\<close> the
  exception \<open>json.dump\<close> raises while writing to the file opened at \<open>p\<close>, if any.

  \<open>unprintable n\<close> says that standard output cannot encode the name \<open>n\<close>, so that
  \<open>print\<close> raises \<open>UnicodeEncodeError\<close> on a line that holds it. \<open>stack_depth\<close> is the
  number of nested calls of \<open>scan_directory\<close>, below the first, in which the
  interpreter's recursion limit still leaves room for a call of a library function
  written in Python (\<open>os.path.join\<close>, \<open>os.path.isdir\<close>); in a deeper call the
  first such call raises \<open>RecursionError\<close>.
\<close>

record host =
  path_join :: "string \<Rightarrow> string \<Rightarrow> string"
  path_relpath :: "string \<Rightarrow> string \<Rightarrow> exn + string"
  path_basename :: "string \<Rightarrow> string"
  open_w :: "string \<Rightarrow> exn option"
  json_dump :: "string \<Rightarrow> exn option"
  unprintable :: "string \<Rightarrow> bool"
  stack_depth :: nat

subsection \<open>scan_directory (lines 15-67)\<close>

text \<open>\<open>relative_path.replace('\\', '/')\<close>, line 54.\<close>

definition str_replace :: "char \<Rightarrow> char \<Rightarrow> string \<Rightarrow> string" where
  "str_replace old new s = map (\<lambda>c. if c = old then new else c) s"

text \<open>The line each of the two handlers prints, lines 62-65.\<close>

fun warning :: "string \<Rightarrow> exn \<Rightarrow> message" where
  "warning path PermissionError = Warning_permission_denied path"
| "warning path e = Warning_error_processing path e"

text \<open>
  The \<open>print\<close> of a handler raises when standard output cannot encode the path in the
  line. The path is the root path followed by the names joined onto it: the root path
  was typed at the prompt and every encoding of standard output encodes ASCII, so the
  line cannot be printed when one of these names is not ASCII and is unprintable on
  the host.
\<close>

definition is_ascii :: "string \<Rightarrow> bool" where
  "is_ascii s = list_all (\<lambda>c. (of_char c :: nat) < 128) s"

definition print_raises :: "host \<Rightarrow> string list \<Rightarrow> bool" where
  "print_raises h names = list_ex (\<lambda>m. \<not> is_ascii m \<and> unprintable h m) names"

text \<open>
  The loop over \<open>files\<close>, lines 49-60: each file appends one node to the children
  collected so far; an exception of \<open>os.path.relpath\<close> leaves the loop with the
  children collected until then.
\<close>

fun process_files ::
  "host \<Rightarrow> string \<Rightarrow> string \<Rightarrow> node list \<Rightarrow> string list \<Rightarrow> node list \<times> exn option" where
  "process_files h root_folder_path path children [] = (children, None)"
| "process_files h root_folder_path path children (file # files) =
     (case path_relpath h (path_join h path file) root_folder_path of
        Inl e \<Rightarrow> (children, Some e)
      | Inr relative_path \<Rightarrow>
          process_files h root_folder_path path
            (children @ [File file (''old-articles/'' @ str_replace (CHR 0x5C) CHR ''/'' relative_path)])
            files)"

text \<open>
  The loop over \<open>folders\<close>, lines 43-46, given the outcomes of the calls of line 45 in
  order: a call that returns appends its node; the first call that raises leaves the
  loop with the children collected until then. What the calls printed up to there is
  printed.
\<close>

fun run_folders ::
  "((exn + node) \<times> message list) list \<Rightarrow> node list \<times> message list \<times> exn option" where
  "run_folders [] = ([], [], None)"
| "run_folders ((Inl e, printed) # calls) = ([], printed, Some e)"
| "run_folders ((Inr child, printed) # calls) =
     (case run_folders calls of
        (children, out, err) \<Rightarrow> (child # children, printed @ out, err))"

text \<open>
  The function returns the node, or the exception that leaves it, and the lines it
  printed. \<open>names\<close> are the names joined onto the root path to make \<open>path\<close>; their
  number is the depth of the call. A name of \<open>folders\<close> keeps the entry its path
  resolves to beside it.

  The body of \<open>try\<close> ends with the children collected and, when it raised, the
  exception: of \<open>os.listdir\<close>; of the first \<open>os.path.join\<close> of line 32 when the
  call is deeper than the stack allows; of a call of line 45; of \<open>os.path.relpath\<close>.
  Then the handler prints its warning and the folder is returned with these children;
  when that \<open>print\<close> raises, its exception leaves the function.
\<close>

function scan_directory ::
  "host \<Rightarrow> string \<Rightarrow> fsentry \<Rightarrow> string \<Rightarrow> string list \<Rightarrow> string \<Rightarrow>
     (exn + node) \<times> message list" where
  "scan_directory h root_folder_path fs path names name =
     (case
        (case listdir fs of
           Inl e \<Rightarrow> ([], [], Some e)
         | Inr items \<Rightarrow>
             if items \<noteq> [] \<and> stack_depth h < length names then ([], [], Some RecursionError)
             else
               (let folders = sort_key fst (filter (\<lambda>(item, e). isdir e) items);
                    files = sort (map fst (filter (\<lambda>(item, e). \<not> isdir e \<and> isfile e) items));
                    calls = map (\<lambda>(folder, d).
                              scan_directory h root_folder_path d (path_join h path folder)
                                (names @ [folder]) folder)
                            folders
                in (case run_folders calls of
                      (children, out, Some e) \<Rightarrow> (children, out, Some e)
                    | (children, out, None) \<Rightarrow>
                        (case process_files h root_folder_path path children files of
                           (children', err) \<Rightarrow> (children', out, err)))))
      of
        (children, out, None) \<Rightarrow> (Inr (Folder name children), out)
      | (children, out, Some e) \<Rightarrow>
          if print_raises h names then (Inl UnicodeEncodeError, out)
          else (Inr (Folder name children), out @ [warning path e]))"
  by pat_completeness auto
termination
proof (relation "measure (\<lambda>(h, r, fs, p, ns, n). size fs)", goal_cases)
  case 1
  show ?case by simp
next
  case (2 h root_folder_path fs path names name items folders files x folder d)
  then have mem: "(folder, d) \<in> set items"
    by auto
  have below: "size e < Suc (size_list (size_prod (\<lambda>_. 0) size) xs)"
    if "(item, e) \<in> set xs" for item e and xs :: "(string \<times> fsentry) list"
    using that by (induction xs) auto
  have "listdir t = Inr items \<Longrightarrow> size d < size t" for t
    using mem below by (induction t) auto
  with 2 show ?case
    by simp
qed

declare scan_directory.simps [simp del]

subsection \<open>generate_archive_index (lines 4-88) and count_files (lines 77-83)\<close>

text \<open>The loop \<open>count = 0; for child in ...: count += count_files(child)\<close> is a left fold.\<close>

fun count_files :: "node \<Rightarrow> int" where
  "count_files (File n p) = 1"
| "count_files (Folder n cs) = foldl (\<lambda>count child. count + count_files child) 0 cs"

text \<open>
  \<open>rootfs\<close> is what \<open>root_folder_path\<close> resolves to. \<open>folder_name\<close> is computed
  (line 70) and never used, as in the source. The function has no handler: an
  exception of the scan leaves it.
\<close>

definition generate_archive_index ::
  "host \<Rightarrow> fsentry \<Rightarrow> string \<Rightarrow> (exn + node) \<times> message list" where
  "generate_archive_index h rootfs root_folder_path =
     (let folder_name = path_basename h root_folder_path
      in (case scan_directory h root_folder_path rootfs root_folder_path [] ''old-articles'' of
            (Inl e, warnings) \<Rightarrow> (Inl e, [Scanning_folder_structure] @ warnings)
          | (Inr structure, warnings) \<Rightarrow>
              (let file_count = count_files structure
               in (Inr structure,
                   [Scanning_folder_structure] @ warnings @ [Found_files file_count]))))"

subsection \<open>save_archive_index (lines 91-95)\<close>

text \<open>
  The disk maps a path to what the file at that path holds: the JSON encoding of a tree,
  or, when \<open>json.dump\<close> raised after the file had been opened for writing, an
  incomplete text. The function has no handler: an exception of \<open>open\<close> or of
  \<open>json.dump\<close> leaves it, which is the result \<open>Inl\<close>.
\<close>

datatype file_content = Json node | Incomplete

type_synonym disk = "string \<rightharpoonup> file_content"

definition save_archive_index ::
  "host \<Rightarrow> node \<Rightarrow> string \<Rightarrow> disk \<Rightarrow> (exn + unit) \<times> disk \<times> message list" where
  "save_archive_index h structure output_path dsk =
     (case open_w h output_path of
        Some e \<Rightarrow> (Inl e, dsk, [])
      | None \<Rightarrow>
          (case json_dump h output_path of
             Some e \<Rightarrow> (Inl e, dsk(output_path \<mapsto> Incomplete), [])
           | None \<Rightarrow>
               (Inr (), dsk(output_path \<mapsto> Json structure), [Archive_index_saved output_path])))"

subsection \<open>main (lines 98-158)\<close>

definition endswith :: "string \<Rightarrow> string \<Rightarrow> bool" where
  "endswith s suffix \<longleftrightarrow>
     length suffix \<le> length s \<and> drop (length s - length suffix) s = suffix"

text \<open>
  \<open>folder_path\<close>, \<open>choice\<close> and \<open>custom_path\<close> are the three strings read by
  \<open>input\<close> after \<open>strip\<close> (lines 110, 135, 138); the third is read only when the
  choice is \<open>2\<close>. \<open>rootfs\<close> is what \<open>folder_path\<close> resolves to. \<open>main\<close> has no
  handler either, so an exception of the save leaves it.
\<close>

definition main ::
  "host \<Rightarrow> fsentry \<Rightarrow> disk \<Rightarrow> string \<Rightarrow> string \<Rightarrow> string \<Rightarrow> (exn + unit) \<times> disk \<times> message list" where
  "main h rootfs dsk folder_path choice custom_path =
     (if \<not> path_exists rootfs then (Inr (), dsk, [Error_folder_not_found folder_path])
      else if \<not> isdir rootfs then (Inr (), dsk, [Error_not_a_folder folder_path])
      else
        (case generate_archive_index h rootfs folder_path of
           (Inl e, printed) \<Rightarrow> (Inl e, dsk, printed)
         | (Inr structure, printed) \<Rightarrow>
             (let output_path =
                    (if choice = ''2''
                     then (if \<not> endswith custom_path ''.json''
                           then path_join h custom_path ''archive-index.json''
                           else custom_path)
                     else ''archive-index.json'')
              in (case save_archive_index h structure output_path dsk of
                    (Inl e, dsk', out) \<Rightarrow> (Inl e, dsk', printed @ out)
                  | (Inr u, dsk', out) \<Rightarrow> (Inr (), dsk', printed @ out @ [Success])))))"

subsection \<open>A host for concrete runs\<close>

text \<open>
  \<open>plain_host sep\<close> has the path functions of a host whose separator is \<open>sep\<close>, as
  \<open>os.path\<close> computes them for an absolute, normalised start path and names that are
  plain (not empty, without separator, not \<open>.\<close> or \<open>..\<close>), which is what the scan
  passes: \<open>join\<close> of two arguments as in \<open>posixpath.join\<close>; \<open>relpath\<close> as in
  \<open>posixpath.relpath\<close> after \<open>abspath\<close>, on the non-empty components of both paths.
  Its \<open>open\<close> and \<open>json.dump\<close> succeed, its standard output encodes ASCII only, and
  its stack has room for 996 nested calls.
\<close>

fun split_on :: "char \<Rightarrow> string \<Rightarrow> string list" where
  "split_on c [] = [[]]"
| "split_on c (x # xs) =
     (if x = c then [] # split_on c xs
      else (case split_on c xs of w # ws \<Rightarrow> (x # w) # ws | [] \<Rightarrow> [[x]]))"

fun join_with :: "char \<Rightarrow> string list \<Rightarrow> string" where
  "join_with c [] = []"
| "join_with c [w] = w"
| "join_with c (w # v # ws) = w @ c # join_with c (v # ws)"

fun common_prefix_length :: "string list \<Rightarrow> string list \<Rightarrow> nat" where
  "common_prefix_length (x # xs) (y # ys) = (if x = y then Suc (common_prefix_length xs ys) else 0)"
| "common_prefix_length xs ys = 0"

definition plain_join :: "char \<Rightarrow> string \<Rightarrow> string \<Rightarrow> string" where
  "plain_join sep a b =
     (if b \<noteq> [] \<and> hd b = sep then b
      else if a = [] \<or> last a = sep then a @ b
      else a @ sep # b)"

definition plain_relpath :: "char \<Rightarrow> string \<Rightarrow> string \<Rightarrow> exn + string" where
  "plain_relpath sep path start =
     (let start_list = filter (\<lambda>x. x \<noteq> []) (split_on sep start);
          path_list = filter (\<lambda>x. x \<noteq> []) (split_on sep path);
          i = common_prefix_length start_list path_list;
          rel_list = replicate (length start_list - i) ''..'' @ drop i path_list
      in if rel_list = [] then Inr ''.'' else Inr (join_with sep rel_list))"

definition plain_host :: "char \<Rightarrow> host" where
  "plain_host sep =
     \<lparr> path_join = plain_join sep,
       path_relpath = plain_relpath sep,
       path_basename = (\<lambda>p. rev (takeWhile (\<lambda>c. c \<noteq> sep) (rev p))),
       open_w = (\<lambda>p. None),
       json_dump = (\<lambda>p. None),
       unprintable = (\<lambda>m. True),
       stack_depth = 996 \<rparr>"

subsection \<open>Notions the properties are stated with\<close>

text \<open>The path reached from \<open>p\<close> by joining the names \<open>cs\<close> one after the other.\<close>

definition joins :: "host \<Rightarrow> string \<Rightarrow> string list \<Rightarrow> string" where
  "joins h p cs = foldl (path_join h) p cs"

text \<open>
  The file nodes of a tree, each with the names of the folders entered below the top
  node to reach it.
\<close>

fun file_entries :: "node \<Rightarrow> (string list \<times> node) list" where
  "file_entries (File n p) = [([], File n p)]"
| "file_entries (Folder n cs) =
     concat (map (\<lambda>c. case c of
                         File m p \<Rightarrow> [([], c)]
                       | Folder m ds \<Rightarrow> map (\<lambda>(ns, f). (m # ns, f)) (file_entries c)) cs)"

text \<open>All nodes reachable from a node, itself included.\<close>

fun reachable :: "node \<Rightarrow> node list" where
  "reachable (File n p) = [File n p]"
| "reachable (Folder n cs) = Folder n cs # concat (map reachable cs)"

text \<open>
  The order of a children sequence: the folders, then the files, each group ascending
  by name; and a tree in which every folder's children are so ordered.
\<close>

definition folders_then_files :: "node list \<Rightarrow> bool" where
  "folders_then_files cs \<longleftrightarrow>
     cs = filter is_folder cs @ filter is_file cs \<and>
     sorted (map node_name (filter is_folder cs)) \<and>
     sorted (map node_name (filter is_file cs))"

fun ordered_tree :: "node \<Rightarrow> bool" where
  "ordered_tree (File n p) = True"
| "ordered_tree (Folder n cs) = (folders_then_files cs \<and> list_all ordered_tree cs)"

text \<open>
  The places of the regular files of a file system entry as the scan meets them: the
  names from the entry down to each file, through the directories that can be listed.
\<close>

function file_locations :: "fsentry \<Rightarrow> string list list" where
  "file_locations fs =
     (case listdir fs of
        Inl e \<Rightarrow> []
      | Inr items \<Rightarrow>
          concat (map (\<lambda>(item, e).
                         if isdir e then map (\<lambda>ns. item # ns) (file_locations e)
                         else if isfile e then [[item]]
                         else []) items))"
  by pat_completeness auto
termination
proof (relation "measure size")
  show "wf (measure size)"
    by simp
next
  fix fs :: fsentry and items :: "(string \<times> fsentry) list"
    and x :: "string \<times> fsentry" and item :: string and d :: fsentry
  assume listed: "listdir fs = Inr items" and x: "x \<in> set items" "(item, d) = x"
  have below: "size e < Suc (size_list (size_prod (\<lambda>_. 0) size) xs)"
    if "(n, e) \<in> set xs" for n e and xs :: "(string \<times> fsentry) list"
    using that by (induction xs) auto
  have "listdir t = Inr items \<Longrightarrow> size d < size t" for t
    using x below by (induction t) auto
  with listed show "(d, fs) \<in> measure size"
    by simp
qed

declare file_locations.simps [simp del]

text \<open>
  The outcomes of the calls of line 45 in a directory at path \<open>p\<close> whose listing is
  \<open>items\<close>, the list \<open>files\<close> after its sort, and the file nodes the loop over the
  files builds from a leading part of that list.
\<close>

definition scanned_folders ::
  "host \<Rightarrow> string \<Rightarrow> string \<Rightarrow> string list \<Rightarrow> (string \<times> fsentry) list \<Rightarrow>
     ((exn + node) \<times> message list) list" where
  "scanned_folders h r p ns items =
     map (\<lambda>(folder, d). scan_directory h r d (path_join h p folder) (ns @ [folder]) folder)
       (sort_key fst (filter (\<lambda>(item, e). isdir e) items))"

definition sorted_files :: "(string \<times> fsentry) list \<Rightarrow> string list" where
  "sorted_files items = sort (map fst (filter (\<lambda>(item, e). \<not> isdir e \<and> isfile e) items))"

definition built_from :: "host \<Rightarrow> string \<Rightarrow> string \<Rightarrow> node list \<Rightarrow> string list \<Rightarrow> bool" where
  "built_from h r p nodes files \<longleftrightarrow>
     map node_name nodes = take (length nodes) files \<and>
     (\<forall>f \<in> set nodes. is_file f \<and>
        (\<exists>rel. path_relpath h (path_join h p (node_name f)) r = Inr rel \<and>
               node_path f = ''old-articles/'' @ str_replace (CHR 0x5C) CHR ''/'' rel))"

text \<open>
  The outcome of the body of \<open>try\<close> (lines 24-60) in a call of \<open>scan_directory\<close>: the
  children collected, the lines the calls of line 45 printed, and the exception that
  ended it, if any.
\<close>

definition try_body ::
  "host \<Rightarrow> string \<Rightarrow> fsentry \<Rightarrow> string \<Rightarrow> string list \<Rightarrow> node list \<times> message list \<times> exn option" where
  "try_body h r fs p ns =
     (case listdir fs of
        Inl e \<Rightarrow> ([], [], Some e)
      | Inr items \<Rightarrow>
          if items \<noteq> [] \<and> stack_depth h < length ns then ([], [], Some RecursionError)
          else
            (case run_folders (scanned_folders h r p ns items) of
               (children, out, Some e) \<Rightarrow> (children, out, Some e)
             | (children, out, None) \<Rightarrow>
                 (case process_files h r p children (sorted_files items) of
                    (children', err) \<Rightarrow> (children', out, err))))"

text \<open>The path \<open>main\<close> writes to (lines 137-142).\<close>

definition output_path_for :: "host \<Rightarrow> string \<Rightarrow> string \<Rightarrow> string" where
  "output_path_for h choice custom_path =
     (if choice = ''2''
      then (if \<not> endswith custom_path ''.json''
            then path_join h custom_path ''archive-index.json''
            else custom_path)
      else ''archive-index.json'')"

text \<open>The lines that are warnings of the scan.\<close>

fun is_warning :: "message \<Rightarrow> bool" where
  "is_warning (Warning_permission_denied p) = True"
| "is_warning (Warning_error_processing p e) = True"
| "is_warning m = False"

text \<open>The node lines 56-60 build for the file \<open>f\<close> of the directory at \<open>p\<close>.\<close>

definition file_node :: "host \<Rightarrow> string \<Rightarrow> string \<Rightarrow> string \<Rightarrow> node" where
  "file_node h r p f =
     File f (''old-articles/'' @ str_replace (CHR 0x5C) CHR ''/''
       (case path_relpath h (path_join h p f) r of Inr rel \<Rightarrow> rel | Inl e \<Rightarrow> []))"

text \<open>
  A file system entry with every listing put in the order of the names, at every
  level. Two entries with the same such form hold the same tree of names and entries
  and differ in the order in which their directories are listed only.
\<close>

primrec canonical :: "fsentry \<Rightarrow> fsentry" where
  "canonical (Dir items) = Dir (sort_key fst (map (map_prod id canonical) items))"
| "canonical (Unreadable e) = Unreadable e"
| "canonical RegularFile = RegularFile"
| "canonical Special = Special"
| "canonical (Symlink t) = Symlink (canonical t)"
| "canonical Absent = Absent"

section \<open>Properties\<close>

subsection \<open>Unfolding the scan\<close>

lemma scan_unfold:
  "scan_directory h r fs p ns n =
     (case try_body h r fs p ns of
        (children, out, None) \<Rightarrow> (Inr (Folder n children), out)
      | (children, out, Some e) \<Rightarrow>
          if print_raises h ns then (Inl UnicodeEncodeError, out)
          else (Inr (Folder n children), out @ [warning p e]))"
  by (cases "listdir fs")
    (simp_all add: scan_directory.simps [of h r fs p ns n] try_body_def scanned_folders_def
      sorted_files_def Let_def)

lemma print_raises_root: "\<not> print_raises h []"
  by (simp add: print_raises_def)

lemma scan_returns:
  "fst (scan_directory h r fs p ns n) = Inr t \<Longrightarrow> t = Folder n (fst (try_body h r fs p ns))"
  by (auto simp: scan_unfold split: prod.splits option.splits if_splits)

lemma scan_raises:
  "fst (scan_directory h r fs p ns n) = Inl x \<Longrightarrow>
   x = UnicodeEncodeError \<and> print_raises h ns \<and> snd (snd (try_body h r fs p ns)) \<noteq> None"
  by (auto simp: scan_unfold split: prod.splits option.splits if_splits)

lemma scan_printable:
  "\<not> print_raises h ns \<Longrightarrow>
   fst (scan_directory h r fs p ns n) = Inr (Folder n (fst (try_body h r fs p ns)))"
  by (auto simp: scan_unfold split: prod.splits option.splits)

lemma scan_listing_failed:
  "listdir fs = Inl e \<Longrightarrow>
   scan_directory h r fs p ns n =
     (if print_raises h ns then (Inl UnicodeEncodeError, [])
      else (Inr (Folder n []), [warning p e]))"
  by (simp add: scan_unfold try_body_def)

lemma run_folders_shape:
  "\<exists>k. k \<le> length calls \<and>
     map Inr (fst (run_folders calls)) = map fst (take k calls) \<and>
     fst (snd (run_folders calls)) = concat (map snd (take (Suc k) calls)) \<and>
     (snd (snd (run_folders calls)) = None \<longrightarrow> k = length calls) \<and>
     (\<forall>e. snd (snd (run_folders calls)) = Some e \<longrightarrow> k < length calls \<and> fst (calls ! k) = Inl e)"
proof (induction calls rule: run_folders.induct)
  case 1
  show ?case by simp
next
  case (2 e printed calls)
  show ?case by (intro exI [of _ 0]) simp
next
  case (3 child printed calls)
  then obtain k where k: "k \<le> length calls"
    "map Inr (fst (run_folders calls)) = map fst (take k calls)"
    "fst (snd (run_folders calls)) = concat (map snd (take (Suc k) calls))"
    "snd (snd (run_folders calls)) = None \<longrightarrow> k = length calls"
    "\<forall>e. snd (snd (run_folders calls)) = Some e \<longrightarrow> k < length calls \<and> fst (calls ! k) = Inl e"
    by (elim exE conjE) (rule that)
  show ?case
    using k by (intro exI [of _ "Suc k"]) (simp add: case_prod_beta)
qed

lemma run_folders_all_return:
  "\<forall>c \<in> set calls. \<exists>t. fst c = Inr t \<Longrightarrow>
   run_folders calls = (map (projr \<circ> fst) calls, concat (map snd calls), None)"
  by (induction calls rule: run_folders.induct) auto

lemma process_files_shape:
  "\<exists>nodes. fst (process_files h r p cs files) = cs @ nodes \<and>
      built_from h r p nodes files \<and>
      (snd (process_files h r p cs files) = None \<longrightarrow> length nodes = length files)"
proof (induction files arbitrary: cs)
  case Nil
  show ?case by (simp add: built_from_def)
next
  case (Cons name files)
  show ?case
  proof (cases "path_relpath h (path_join h p name) r")
    case (Inl e)
    then show ?thesis by (simp add: built_from_def)
  next
    case (Inr rel)
    let ?new = "File name (''old-articles/'' @ str_replace (CHR 0x5C) CHR ''/'' rel)"
    from Cons.IH [of "cs @ [?new]"] obtain nodes where
      nodes: "fst (process_files h r p (cs @ [?new]) files) = (cs @ [?new]) @ nodes"
        "built_from h r p nodes files"
        "snd (process_files h r p (cs @ [?new]) files) = None \<longrightarrow> length nodes = length files"
      by (elim exE conjE) (rule that)
    have "built_from h r p (?new # nodes) (name # files)"
      using nodes(2) Inr by (simp add: built_from_def)
    with nodes(1,3) Inr show ?thesis
      by (intro exI [of _ "?new # nodes"]) simp
  qed
qed

lemma sort_key_fst: "map fst (sort_key fst xs) = sort (map fst xs)"
  by (rule sym, rule properties_for_sort) (simp_all add: sorted_sort_key)

lemma scanned_folders_nth:
  assumes "i < length (scanned_folders h r p ns items)"
  shows "\<exists>folder d. (folder, d) \<in> set items \<and> isdir d \<and>
     folder = sort (map fst (filter (\<lambda>(item, e). isdir e) items)) ! i \<and>
     scanned_folders h r p ns items ! i =
       scan_directory h r d (path_join h p folder) (ns @ [folder]) folder"
proof -
  let ?folders = "sort_key fst (filter (\<lambda>(item, e). isdir e) items)"
  from assms have i: "i < length ?folders"
    by (simp add: scanned_folders_def)
  obtain folder d where fd: "?folders ! i = (folder, d)"
    by (cases "?folders ! i")
  from i have "?folders ! i \<in> set ?folders"
    by (rule nth_mem)
  with fd have mem: "(folder, d) \<in> set items" "isdir d"
    by simp_all
  have "map fst ?folders ! i = folder"
    using i fd by simp
  then have name: "folder = sort (map fst (filter (\<lambda>(item, e). isdir e) items)) ! i"
    by (simp add: sort_key_fst)
  have "scanned_folders h r p ns items ! i =
      scan_directory h r d (path_join h p folder) (ns @ [folder]) folder"
    using i fd by (simp add: scanned_folders_def)
  with mem name show ?thesis
    by blast
qed

lemma folder_children:
  assumes "map Inr cs = map fst (take k (scanned_folders h r p ns items))"
  shows "map node_name cs =
      take (length cs) (sort (map fst (filter (\<lambda>(item, e). isdir e) items)))"
    and "\<forall>c \<in> set cs. is_folder c \<and>
      (\<exists>(folder, d) \<in> set items. isdir d \<and> node_name c = folder \<and>
         fst (scan_directory h r d (path_join h p folder) (ns @ [folder]) folder) = Inr c)"
proof -
  let ?calls = "scanned_folders h r p ns items"
  let ?names = "sort (map fst (filter (\<lambda>(item, e). isdir e) items))"
  from assms have len: "length cs = length (take k ?calls)"
    by (metis length_map)
  then have le: "length cs \<le> length ?calls"
    by simp
  have len_names: "length ?names = length ?calls"
    by (simp add: scanned_folders_def)
  have child: "\<exists>d. (?names ! i, d) \<in> set items \<and> isdir d \<and> is_folder (cs ! i) \<and>
      node_name (cs ! i) = ?names ! i \<and>
      fst (scan_directory h r d (path_join h p (?names ! i)) (ns @ [?names ! i]) (?names ! i)) =
        Inr (cs ! i)" if "i < length cs" for i
  proof -
    from that le have i: "i < length ?calls"
      by simp
    from scanned_folders_nth [OF i] obtain folder d where
      fd: "(folder, d) \<in> set items" "isdir d" "folder = ?names ! i"
        "?calls ! i = scan_directory h r d (path_join h p folder) (ns @ [folder]) folder"
      by (elim exE conjE) (rule that)
    from that len have "i < k"
      by simp
    have "map Inr cs ! i = map fst (take k ?calls) ! i"
      by (simp only: assms)
    with that len i \<open>i < k\<close> have "Inr (cs ! i) = fst (?calls ! i)"
      by simp
    with fd(4) have ret: "fst (scan_directory h r d (path_join h p folder) (ns @ [folder]) folder) =
        Inr (cs ! i)"
      by simp
    from scan_returns [OF this] have "is_folder (cs ! i)" "node_name (cs ! i) = folder"
      by simp_all
    with fd ret show ?thesis
      by auto
  qed
  show "map node_name cs = take (length cs) ?names"
  proof (rule nth_equalityI)
    show "length (map node_name cs) = length (take (length cs) ?names)"
      using le len_names by simp
  next
    fix i
    assume "i < length (map node_name cs)"
    then have "i < length cs"
      by simp
    with child [OF this] show "map node_name cs ! i = take (length cs) ?names ! i"
      by auto
  qed
  show "\<forall>c \<in> set cs. is_folder c \<and>
      (\<exists>(folder, d) \<in> set items. isdir d \<and> node_name c = folder \<and>
         fst (scan_directory h r d (path_join h p folder) (ns @ [folder]) folder) = Inr c)"
  proof
    fix c
    assume "c \<in> set cs"
    then obtain i where i: "i < length cs" "c = cs ! i"
      by (auto simp: in_set_conv_nth)
    from child [OF i(1)] obtain d where
      "(?names ! i, d) \<in> set items" "isdir d" "is_folder (cs ! i)"
      "node_name (cs ! i) = ?names ! i"
      "fst (scan_directory h r d (path_join h p (?names ! i)) (ns @ [?names ! i]) (?names ! i)) =
        Inr (cs ! i)"
      by (elim exE conjE) (rule that)
    with i(2) show "is_folder c \<and>
      (\<exists>(folder, d) \<in> set items. isdir d \<and> node_name c = folder \<and>
         fst (scan_directory h r d (path_join h p folder) (ns @ [folder]) folder) = Inr c)"
      by (intro conjI bexI [of _ "(?names ! i, d)"]) simp_all
  qed
qed

lemma try_body_listed:
  assumes "listdir fs = Inr items" and "\<not> (items \<noteq> [] \<and> stack_depth h < length ns)"
  shows "try_body h r fs p ns =
     (case run_folders (scanned_folders h r p ns items) of
        (children, out, Some e) \<Rightarrow> (children, out, Some e)
      | (children, out, None) \<Rightarrow>
          (case process_files h r p children (sorted_files items) of
             (children', err) \<Rightarrow> (children', out, err)))"
  by (simp add: try_body_def assms(1) if_not_P [OF assms(2)])

lemma try_body_too_deep:
  assumes "listdir fs = Inr items" and "items \<noteq> [] \<and> stack_depth h < length ns"
  shows "try_body h r fs p ns = ([], [], Some RecursionError)"
  by (simp add: try_body_def assms(1) if_P [OF assms(2)])

lemma try_body_shape:
  assumes "listdir fs = Inr items"
  shows "\<exists>cs nodes k. fst (try_body h r fs p ns) = cs @ nodes \<and>
     map Inr cs = map fst (take k (scanned_folders h r p ns items)) \<and>
     built_from h r p nodes (sorted_files items)"
proof (cases "items \<noteq> [] \<and> stack_depth h < length ns")
  case True
  have "fst (try_body h r fs p ns) = [] @ []"
    by (simp add: try_body_too_deep [OF assms True])
  moreover have "map Inr [] = map fst (take 0 (scanned_folders h r p ns items))"
    by simp
  moreover have "built_from h r p [] (sorted_files items)"
    by (simp add: built_from_def)
  ultimately show ?thesis
    by blast
next
  case False
  let ?calls = "scanned_folders h r p ns items"
  from run_folders_shape [of ?calls] obtain k where
    k: "map Inr (fst (run_folders ?calls)) = map fst (take k ?calls)"
    by (elim exE conjE) (rule that)
  show ?thesis
  proof (cases "snd (snd (run_folders ?calls))")
    case (Some e)
    then have "fst (try_body h r fs p ns) = fst (run_folders ?calls) @ []"
      by (simp add: try_body_listed [OF assms False] case_prod_beta)
    moreover have "built_from h r p [] (sorted_files items)"
      by (simp add: built_from_def)
    ultimately show ?thesis
      using k by blast
  next
    case None
    from process_files_shape [of h r p "fst (run_folders ?calls)" "sorted_files items"]
    obtain nodes where
      nodes: "fst (process_files h r p (fst (run_folders ?calls)) (sorted_files items)) =
        fst (run_folders ?calls) @ nodes"
        "built_from h r p nodes (sorted_files items)"
      by (elim exE conjE) (rule that)
    from None nodes(1) have "fst (try_body h r fs p ns) = fst (run_folders ?calls) @ nodes"
      by (simp add: try_body_listed [OF assms False] case_prod_beta)
    with nodes(2) k show ?thesis
      by blast
  qed
qed

lemma try_body_unlisted: "listdir fs = Inl e \<Longrightarrow> try_body h r fs p ns = ([], [], Some e)"
  by (simp add: try_body_def)

subsection \<open>The counter\<close>

lemma foldl_plus_sum:
  "foldl (\<lambda>count child. count + f child) a cs = a + sum_list (map f cs)"
  for a :: int
  by (induction cs arbitrary: a) auto

lemma length_filter_concat:
  "int (length (filter P (concat xss))) = sum_list (map (\<lambda>xs. int (length (filter P xs))) xss)"
  by (induction xss) auto

text \<open>
  Claim C3. \<open>count_files\<close> returns exactly the number of file-type nodes reachable from
  the node it is given; folder-type nodes are not counted. It is a function of the tree
  alone, the recursive sum over the children.
\<close>

theorem count_files_counts_file_nodes:
  "count_files t = int (length (filter is_file (reachable t)))"
proof (induction t)
  case (Folder n cs)
  have "count_files (Folder n cs) = sum_list (map count_files cs)"
    by (simp add: foldl_plus_sum)
  also have "\<dots> = sum_list (map (\<lambda>c. int (length (filter is_file (reachable c)))) cs)"
    using Folder.IH by (auto intro: arg_cong [where f = sum_list])
  also have "\<dots> = int (length (filter is_file (reachable (Folder n cs))))"
    by (simp add: length_filter_concat comp_def)
  finally show ?case .
next
  case (File n p)
  show ?case by simp
qed

subsection \<open>The order of the children\<close>

lemma folders_then_files_append:
  assumes "\<forall>c \<in> set xs. is_folder c" and "\<forall>c \<in> set ys. is_file c"
    and "sorted (map node_name xs)" and "sorted (map node_name ys)"
  shows "folders_then_files (xs @ ys)"
proof -
  have "is_file c \<longleftrightarrow> \<not> is_folder c" for c
    by (cases c) auto
  with assms have "filter is_folder (xs @ ys) = xs" "filter is_file (xs @ ys) = ys"
    by (auto simp: filter_empty_conv filter_id_conv)
  with assms show ?thesis
    by (simp add: folders_then_files_def)
qed

lemma scan_ordered:
  "fst (scan_directory h r fs p ns n) = Inr t \<Longrightarrow> ordered_tree t"
proof (induction h r fs p ns n arbitrary: t rule: scan_directory.induct)
  case (1 h r fs p ns n)
  note t = scan_returns [OF "1.prems"]
  show ?case
  proof (cases "listdir fs")
    case (Inl e)
    with t show ?thesis
      by (simp add: try_body_unlisted folders_then_files_def)
  next
    case (Inr items)
    show ?thesis
    proof (cases "items \<noteq> [] \<and> stack_depth h < length ns")
      case True
      with t show ?thesis
        by (simp add: try_body_too_deep [OF Inr True] folders_then_files_def)
    next
      case False
      from try_body_shape [OF Inr, of h r p ns] obtain cs nodes k where
        shape: "fst (try_body h r fs p ns) = cs @ nodes"
          "map Inr cs = map fst (take k (scanned_folders h r p ns items))"
          "built_from h r p nodes (sorted_files items)"
        by (elim exE conjE) (rule that)
      note folders = folder_children [OF shape(2)]
      from shape(3) have names: "map node_name nodes = take (length nodes) (sorted_files items)"
        and files: "\<forall>f \<in> set nodes. is_file f"
        by (simp_all add: built_from_def)
      have "sorted (map node_name cs)"
        unfolding folders(1) by (simp add: sorted_wrt_take)
      moreover have "sorted (map node_name nodes)"
        unfolding names sorted_files_def by (simp add: sorted_wrt_take)
      ultimately have order: "folders_then_files (cs @ nodes)"
        using files folders(2) by (intro folders_then_files_append) auto
      have "ordered_tree c" if "c \<in> set cs" for c
      proof -
        from folders(2) that obtain folder d where
          mem: "(folder, d) \<in> set items" "isdir d"
          and ret: "fst (scan_directory h r d (path_join h p folder) (ns @ [folder]) folder) = Inr c"
          by auto
        from mem have "(folder, d) \<in> set (sort_key fst (filter (\<lambda>(item, e). isdir e) items))"
          by simp
        from "1.IH" [OF Inr False refl refl this refl ret] show ?thesis .
      qed
      moreover have "ordered_tree c" if "c \<in> set nodes" for c
        using files that by (cases c) auto
      ultimately have "list_all ordered_tree (cs @ nodes)"
        by (auto simp: list_all_iff)
      with order t shape(1) show ?thesis
        by simp
    qed
  qed
qed

lemma generate_returns:
  "generate_archive_index h rootfs root_folder_path =
     (Inr (Folder ''old-articles'' (fst (try_body h root_folder_path rootfs root_folder_path []))),
      [Scanning_folder_structure] @
      snd (scan_directory h root_folder_path rootfs root_folder_path [] ''old-articles'') @
      [Found_files (count_files
         (Folder ''old-articles'' (fst (try_body h root_folder_path rootfs root_folder_path []))))])"
proof -
  obtain result warnings where
    scan: "scan_directory h root_folder_path rootfs root_folder_path [] ''old-articles'' =
      (result, warnings)"
    by (cases "scan_directory h root_folder_path rootfs root_folder_path [] ''old-articles''")
  with scan_printable [OF print_raises_root, of h root_folder_path rootfs root_folder_path
      "''old-articles''"]
  have "result = Inr (Folder ''old-articles''
      (fst (try_body h root_folder_path rootfs root_folder_path [])))"
    by simp
  with scan show ?thesis
    by (simp add: generate_archive_index_def Let_def)
qed

lemma generate_structure:
  "fst (generate_archive_index h rootfs root_folder_path) =
   fst (scan_directory h root_folder_path rootfs root_folder_path [] ''old-articles'')"
  by (simp add: generate_returns scan_printable [OF print_raises_root])

text \<open>
  Claim C2. In every folder node of a tree the scan produces, the folder-type children
  come before the file-type children, and each of the two groups is in ascending
  lexicographic order by name. This holds of the tree of every call of
  \<open>scan_directory\<close> that returns, and \<open>generate_archive_index\<close> always returns such a
  tree.
\<close>

theorem children_folders_first_sorted:
  "(\<forall>t. fst (scan_directory h r fs p ns n) = Inr t \<longrightarrow> ordered_tree t) \<and>
   (\<exists>t. fst (generate_archive_index h rootfs root_folder_path) = Inr t \<and> ordered_tree t)"
proof (intro conjI allI impI)
  fix t
  assume "fst (scan_directory h r fs p ns n) = Inr t"
  then show "ordered_tree t"
    by (rule scan_ordered)
next
  let ?t = "Folder ''old-articles'' (fst (try_body h root_folder_path rootfs root_folder_path []))"
  have ret: "fst (generate_archive_index h rootfs root_folder_path) = Inr ?t"
    by (simp add: generate_returns)
  then have "fst (scan_directory h root_folder_path rootfs root_folder_path [] ''old-articles'') =
      Inr ?t"
    by (simp add: generate_structure)
  then have "ordered_tree ?t"
    by (rule scan_ordered)
  with ret show "\<exists>t. fst (generate_archive_index h rootfs root_folder_path) = Inr t \<and>
      ordered_tree t"
    by blast
qed

theorem children_folders_first_sorted_witness:
  "fst (scan_directory (plain_host CHR ''/'') ''/srv/site''
     (Dir [(''b.txt'', RegularFile), (''Zeta'', Dir [(''n.txt'', RegularFile)]),
           (''A.txt'', RegularFile), (''alpha'', Dir [])])
     ''/srv/site'' [] ''old-articles'') =
   Inr (Folder ''old-articles''
     [Folder ''Zeta'' [File ''n.txt'' ''old-articles/Zeta/n.txt''], Folder ''alpha'' [],
      File ''A.txt'' ''old-articles/A.txt'', File ''b.txt'' ''old-articles/b.txt'']) \<and>
   ordered_tree (Folder ''old-articles''
     [Folder ''Zeta'' [File ''n.txt'' ''old-articles/Zeta/n.txt''], Folder ''alpha'' [],
      File ''A.txt'' ''old-articles/A.txt'', File ''b.txt'' ''old-articles/b.txt''])"
proof -
  have ret: "fst (scan_directory (plain_host CHR ''/'') ''/srv/site''
     (Dir [(''b.txt'', RegularFile), (''Zeta'', Dir [(''n.txt'', RegularFile)]),
           (''A.txt'', RegularFile), (''alpha'', Dir [])])
     ''/srv/site'' [] ''old-articles'') =
   Inr (Folder ''old-articles''
     [Folder ''Zeta'' [File ''n.txt'' ''old-articles/Zeta/n.txt''], Folder ''alpha'' [],
      File ''A.txt'' ''old-articles/A.txt'', File ''b.txt'' ''old-articles/b.txt''])"
    by code_simp
  from children_folders_first_sorted [THEN conjunct1, rule_format, OF ret] ret
  show ?thesis
    by simp
qed

subsection \<open>What the scan prints\<close>

lemma warning_is_warning: "is_warning (warning p e)"
  by (cases e) auto

lemma run_folders_printed:
  "m \<in> set (fst (snd (run_folders calls))) \<Longrightarrow> \<exists>c \<in> set calls. m \<in> set (snd c)"
  by (induction calls rule: run_folders.induct) (auto simp: case_prod_beta)

lemma try_body_printed:
  assumes "m \<in> set (fst (snd (try_body h r fs p ns)))"
  shows "\<exists>items. listdir fs = Inr items \<and> \<not> (items \<noteq> [] \<and> stack_depth h < length ns) \<and>
     (\<exists>c \<in> set (scanned_folders h r p ns items). m \<in> set (snd c))"
proof (cases "listdir fs")
  case (Inl e)
  with assms show ?thesis
    by (simp add: try_body_unlisted)
next
  case (Inr items)
  show ?thesis
  proof (cases "items \<noteq> [] \<and> stack_depth h < length ns")
    case True
    with assms show ?thesis
      by (simp add: try_body_too_deep [OF Inr True])
  next
    case False
    from assms have "m \<in> set (fst (snd (run_folders (scanned_folders h r p ns items))))"
      by (simp add: try_body_listed [OF Inr False] case_prod_beta split: option.splits)
    from run_folders_printed [OF this] Inr False show ?thesis
      by blast
  qed
qed

lemma scan_printed:
  assumes "m \<in> set (snd (scan_directory h r fs p ns n))"
  shows "m \<in> set (fst (snd (try_body h r fs p ns))) \<or> (\<exists>e. m = warning p e)"
  using assms by (auto simp: scan_unfold split: prod.splits option.splits if_splits)

lemma scan_prints_warnings:
  "m \<in> set (snd (scan_directory h r fs p ns n)) \<Longrightarrow> is_warning m"
proof (induction h r fs p ns n rule: scan_directory.induct)
  case (1 h r fs p ns n)
  from scan_printed [OF "1.prems"] show ?case
  proof
    assume "m \<in> set (fst (snd (try_body h r fs p ns)))"
    from try_body_printed [OF this] obtain items c where
      listed: "listdir fs = Inr items" "\<not> (items \<noteq> [] \<and> stack_depth h < length ns)"
      and c: "c \<in> set (scanned_folders h r p ns items)" "m \<in> set (snd c)"
      by (elim exE conjE bexE) (rule that)
    from c(1) obtain folder d where
      mem: "(folder, d) \<in> set (sort_key fst (filter (\<lambda>(item, e). isdir e) items))"
      and call: "c = scan_directory h r d (path_join h p folder) (ns @ [folder]) folder"
      by (auto simp: scanned_folders_def)
    from "1.IH" [OF listed refl refl mem refl] c(2) call show ?thesis
      by simp
  next
    assume "\<exists>e. m = warning p e"
    then show ?thesis
      by (auto simp: warning_is_warning)
  qed
qed

subsection \<open>The root and the output file\<close>

lemma isdir_exists: "isdir e \<Longrightarrow> path_exists e"
  by (induction e) auto

lemma main_unfold:
  "main h rootfs dsk folder_path choice custom_path =
     (if \<not> path_exists rootfs then (Inr (), dsk, [Error_folder_not_found folder_path])
      else if \<not> isdir rootfs then (Inr (), dsk, [Error_not_a_folder folder_path])
      else
        (case generate_archive_index h rootfs folder_path of
           (Inl e, printed) \<Rightarrow> (Inl e, dsk, printed)
         | (Inr structure, printed) \<Rightarrow>
             (case save_archive_index h structure (output_path_for h choice custom_path) dsk of
                (Inl e, dsk', out) \<Rightarrow> (Inl e, dsk', printed @ out)
              | (Inr u, dsk', out) \<Rightarrow> (Inr (), dsk', printed @ out @ [Success]))))"
  unfolding main_def output_path_for_def Let_def by (rule refl)

lemma main_valid_root:
  assumes "isdir rootfs" and "generate_archive_index h rootfs folder_path = (Inr t, printed)"
  shows "main h rootfs dsk folder_path choice custom_path =
     (case save_archive_index h t (output_path_for h choice custom_path) dsk of
        (Inl e, dsk', out) \<Rightarrow> (Inl e, dsk', printed @ out)
      | (Inr u, dsk', out) \<Rightarrow> (Inr (), dsk', printed @ out @ [Success]))"
  unfolding main_unfold using assms isdir_exists [OF assms(1)] by simp

text \<open>
  Claim C7. Whatever the scan root, the root node of the tree is a folder named
  \<open>old-articles\<close>, not the base name of the root directory; a root directory with no
  entries gives exactly the folder \<open>old-articles\<close> with no children.
\<close>

theorem root_label_is_fixed:
  "(\<exists>cs. fst (generate_archive_index h rootfs root_folder_path) =
           Inr (Folder ''old-articles'' cs)) \<and>
   generate_archive_index h (Dir []) root_folder_path =
     (Inr (Folder ''old-articles'' []), [Scanning_folder_structure, Found_files 0])"
proof -
  have "scan_directory h root_folder_path (Dir []) root_folder_path [] ''old-articles'' =
      (Inr (Folder ''old-articles'' []), [])"
    by (simp add: scan_unfold try_body_def scanned_folders_def sorted_files_def)
  then have "generate_archive_index h (Dir []) root_folder_path =
     (Inr (Folder ''old-articles'' []), [Scanning_folder_structure, Found_files 0])"
    by (simp add: generate_archive_index_def)
  then show ?thesis
    by (simp add: generate_returns)
qed

text \<open>
  Claim C8. If opening or writing the output file fails, \<open>save_archive_index\<close> ends with
  that exception: nothing is printed, after a failed open the disk is as before, and
  \<open>main\<close>, which has no handler, ends with the same exception without announcing a
  saved file or success.
\<close>

theorem save_failure_reaches_the_invoker:
  assumes "open_w h output_path = Some e \<or>
           (open_w h output_path = None \<and> json_dump h output_path = Some e)"
  shows "fst (save_archive_index h tree output_path dsk) = Inl e \<and>
         snd (snd (save_archive_index h tree output_path dsk)) = [] \<and>
         (open_w h output_path = Some e \<longrightarrow>
            fst (snd (save_archive_index h tree output_path dsk)) = dsk) \<and>
         (\<forall>rootfs folder_path choice custom_path.
            isdir rootfs \<and> output_path_for h choice custom_path = output_path \<longrightarrow>
              fst (main h rootfs dsk folder_path choice custom_path) = Inl e \<and>
              Archive_index_saved output_path \<notin>
                set (snd (snd (main h rootfs dsk folder_path choice custom_path))) \<and>
              Success \<notin> set (snd (snd (main h rootfs dsk folder_path choice custom_path))))"
proof -
  have save: "\<exists>dsk'. save_archive_index h t output_path dsk = (Inl e, dsk', [])" for t
    using assms by (auto simp: save_archive_index_def)
  have "fst (main h rootfs dsk folder_path choice custom_path) = Inl e \<and>
        Archive_index_saved output_path \<notin>
          set (snd (snd (main h rootfs dsk folder_path choice custom_path))) \<and>
        Success \<notin> set (snd (snd (main h rootfs dsk folder_path choice custom_path)))"
    if "isdir rootfs" "output_path_for h choice custom_path = output_path"
    for rootfs folder_path choice custom_path
  proof -
    obtain dsk' where
      "save_archive_index h
         (Folder ''old-articles'' (fst (try_body h folder_path rootfs folder_path [])))
         output_path dsk = (Inl e, dsk', [])"
      using save by blast
    moreover have "Success \<notin> set (snd (scan_directory h r fs p ns n))"
      and "Archive_index_saved q \<notin> set (snd (scan_directory h r fs p ns n))" for r fs p ns n q
      using scan_prints_warnings [of _ h r fs p ns n] by fastforce+
    ultimately show ?thesis
      using that by (simp add: main_valid_root [OF that(1) generate_returns])
  qed
  with assms show ?thesis
    by (auto simp: save_archive_index_def)
qed

theorem save_failure_reaches_the_invoker_witness:
  "fst (save_archive_index ((plain_host CHR ''/'')\<lparr>open_w := \<lambda>p. Some PermissionError\<rparr>)
          (Folder ''old-articles'' []) ''archive-index.json'' Map.empty) = Inl PermissionError \<and>
   fst (main ((plain_host CHR ''/'')\<lparr>open_w := \<lambda>p. Some PermissionError\<rparr>)
          (Dir []) Map.empty ''/srv/site'' ''1'' []) = Inl PermissionError"
  using save_failure_reaches_the_invoker
    [where h = "(plain_host CHR ''/'')\<lparr>open_w := \<lambda>p. Some PermissionError\<rparr>"
       and output_path = "''archive-index.json''" and e = PermissionError
       and tree = "Folder ''old-articles'' []" and dsk = Map.empty]
  by (simp add: plain_host_def output_path_for_def)

text \<open>
  Claim C10. If the root path is a directory, so that it passes the validation of
  \<open>main\<close>, and listing it raises, the run does not abort: provided the output file can
  be written, \<open>main\<close> returns normally and the file holds the folder \<open>old-articles\<close>
  with no children, after the warning a failing subdirectory would get.
\<close>

theorem root_listing_failure_still_writes:
  assumes "isdir rootfs" and "listdir rootfs = Inl e"
    and "open_w h (output_path_for h choice custom_path) = None"
    and "json_dump h (output_path_for h choice custom_path) = None"
  shows "main h rootfs dsk folder_path choice custom_path =
     (Inr (),
      dsk(output_path_for h choice custom_path \<mapsto> Json (Folder ''old-articles'' [])),
      [Scanning_folder_structure, warning folder_path e, Found_files 0,
       Archive_index_saved (output_path_for h choice custom_path), Success])"
  using assms
  by (simp add: main_valid_root [OF assms(1) generate_returns] try_body_unlisted
      scan_listing_failed print_raises_root save_archive_index_def)

theorem root_listing_failure_still_writes_witness:
  "main (plain_host CHR ''/'') (Unreadable PermissionError) Map.empty ''/srv/site'' ''1'' [] =
     (Inr (),
      [''archive-index.json'' \<mapsto> Json (Folder ''old-articles'' [])],
      [Scanning_folder_structure, Warning_permission_denied ''/srv/site'', Found_files 0,
       Archive_index_saved ''archive-index.json'', Success])"
  using root_listing_failure_still_writes
    [where rootfs = "Unreadable PermissionError" and e = PermissionError
       and h = "plain_host CHR ''/''" and choice = "''1''" and custom_path = "[]"
       and dsk = Map.empty and folder_path = "''/srv/site''"]
  by (simp add: plain_host_def output_path_for_def)

subsection \<open>The scenario of four entries\<close>

lemma process_files_no_error:
  "\<forall>f \<in> set files. \<exists>rel. path_relpath h (path_join h p f) r = Inr rel \<Longrightarrow>
   process_files h r p cs files = (cs @ map (file_node h r p) files, None)"
  by (induction files arbitrary: cs) (auto simp: file_node_def)

lemma all_folders_return:
  assumes "\<forall>(item, e) \<in> set items. isdir e \<longrightarrow> \<not> print_raises h (ns @ [item])"
  shows "\<exists>cs. run_folders (scanned_folders h r p ns items) =
           (cs, concat (map snd (scanned_folders h r p ns items)), None) \<and>
         map Inr cs = map fst (scanned_folders h r p ns items)"
proof -
  let ?calls = "scanned_folders h r p ns items"
  have ret: "\<exists>t. fst c = Inr t" if "c \<in> set ?calls" for c
  proof -
    from that obtain folder d where
      mem: "(folder, d) \<in> set (sort_key fst (filter (\<lambda>(item, e). isdir e) items))"
      and call: "c = scan_directory h r d (path_join h p folder) (ns @ [folder]) folder"
      by (auto simp: scanned_folders_def)
    from mem assms have "\<not> print_raises h (ns @ [folder])"
      by auto
    from scan_printable [OF this] call show ?thesis
      by simp
  qed
  then have "run_folders ?calls = (map (projr \<circ> fst) ?calls, concat (map snd ?calls), None)"
    by (intro run_folders_all_return) blast
  moreover have "Inr (projr (fst c)) = fst c" if "c \<in> set ?calls" for c
    using ret [OF that] by auto
  then have "map (\<lambda>c. Inr (projr (fst c))) ?calls = map fst ?calls"
    by (intro map_cong refl)
  then have "map Inr (map (projr \<circ> fst) ?calls) = map fst ?calls"
    by (simp add: comp_def)
  ultimately show ?thesis
    by blast
qed

lemma children_when_no_error:
  assumes listed: "listdir fs = Inr items"
    and within: "\<not> (items \<noteq> [] \<and> stack_depth h < length ns)"
    and printable: "\<forall>(item, e) \<in> set items. isdir e \<longrightarrow> \<not> print_raises h (ns @ [item])"
    and returns: "\<forall>f \<in> set (sorted_files items).
      \<exists>rel. path_relpath h (path_join h p f) r = Inr rel"
  shows "\<exists>cs. try_body h r fs p ns =
           (cs @ map (file_node h r p) (sorted_files items),
            concat (map snd (scanned_folders h r p ns items)), None) \<and>
         map Inr cs = map fst (scanned_folders h r p ns items)"
proof -
  from all_folders_return [OF printable, of r p] obtain cs where
    cs: "run_folders (scanned_folders h r p ns items) =
           (cs, concat (map snd (scanned_folders h r p ns items)), None)"
      "map Inr cs = map fst (scanned_folders h r p ns items)"
    by (elim exE conjE) (rule that)
  have "try_body h r fs p ns =
      (cs @ map (file_node h r p) (sorted_files items),
       concat (map snd (scanned_folders h r p ns items)), None)"
    by (simp add: try_body_listed [OF listed within] cs(1) process_files_no_error [OF returns])
  with cs(2) show ?thesis
    by blast
qed

lemma sort_unique: "mset xs = mset ys \<Longrightarrow> sorted ys \<Longrightarrow> sort xs = ys"
  by (rule properties_for_sort) simp_all

text \<open>
  Claim C5 says that a root holding the files \<open>b.txt\<close>, \<open>A.txt\<close> and the folders
  \<open>Zeta\<close>, \<open>alpha\<close> gives the children \<open>alpha, Zeta, A.txt, b.txt\<close>. The sort of
  the source compares code points, where \<open>Z\<close> is below \<open>a\<close>: the order is another.
\<close>

theorem four_entries_counterexample:
  "fst (generate_archive_index (plain_host CHR ''/'')
      (Dir [(''b.txt'', RegularFile), (''A.txt'', RegularFile), (''Zeta'', Dir []), (''alpha'', Dir [])])
      ''/srv/Old Articles'') =
     Inr (Folder ''old-articles''
       [Folder ''Zeta'' [], Folder ''alpha'' [],
        File ''A.txt'' ''old-articles/A.txt'', File ''b.txt'' ''old-articles/b.txt'']) \<and>
   map node_name
     [Folder ''Zeta'' [], Folder ''alpha'' [],
      File ''A.txt'' ''old-articles/A.txt'', File ''b.txt'' ''old-articles/b.txt''] \<noteq>
     [''alpha'', ''Zeta'', ''A.txt'', ''b.txt'']"
  by code_simp

text \<open>
  Claim C5, amended. For a root directory holding exactly the files \<open>b.txt\<close>,
  \<open>A.txt\<close> and the folders \<open>Zeta\<close>, \<open>alpha\<close>, in whatever order the listing
  returns them, the children of the root node are \<open>Zeta, alpha, A.txt, b.txt\<close>: the
  folders first, each group sorted by code point, capitals before small letters.
\<close>

theorem four_entries_order:
  assumes items: "mset items =
      {#(''b.txt'', RegularFile), (''A.txt'', RegularFile), (''Zeta'', dz), (''alpha'', da)#}"
    and dirs: "isdir dz" "isdir da"
    and rel: "path_relpath h (path_join h root_folder_path ''A.txt'') root_folder_path = Inr ra"
      "path_relpath h (path_join h root_folder_path ''b.txt'') root_folder_path = Inr rb"
  shows "\<exists>t. fst (generate_archive_index h (Dir items) root_folder_path) = Inr t \<and>
           map (\<lambda>c. (node_name c, is_folder c)) (node_children t) =
             [(''Zeta'', True), (''alpha'', True), (''A.txt'', False), (''b.txt'', False)]"
proof -
  have "mset (map fst (filter (\<lambda>(item, e). \<not> isdir e \<and> isfile e) items)) =
      mset [''A.txt'', ''b.txt'']"
    using dirs by (simp add: items)
  then have files: "sorted_files items = [''A.txt'', ''b.txt'']"
    unfolding sorted_files_def by (rule sort_unique) simp
  have "mset (map fst (filter (\<lambda>(item, e). isdir e) items)) = mset [''Zeta'', ''alpha'']"
    using dirs by (simp add: items)
  then have folders: "sort (map fst (filter (\<lambda>(item, e). isdir e) items)) = [''Zeta'', ''alpha'']"
    by (rule sort_unique) simp
  have "set items = set_mset (mset items)"
    by simp
  then have members: "set items =
      {(''b.txt'', RegularFile), (''A.txt'', RegularFile), (''Zeta'', dz), (''alpha'', da)}"
    unfolding items by simp
  have ascii: "is_ascii ''Zeta''" "is_ascii ''alpha''"
    by (simp_all add: is_ascii_def)
  have printable: "\<forall>(item, e) \<in> set items. isdir e \<longrightarrow> \<not> print_raises h ([] @ [item])"
    unfolding members using ascii by (simp add: print_raises_def)
  have returns: "\<forall>f \<in> set (sorted_files items).
      \<exists>rel. path_relpath h (path_join h root_folder_path f) root_folder_path = Inr rel"
    using rel by (simp add: files)
  have "listdir (Dir items) = Inr items" "\<not> (items \<noteq> [] \<and> stack_depth h < length ([] :: string list))"
    by simp_all
  from children_when_no_error [OF this printable returns] obtain cs where
    body: "try_body h root_folder_path (Dir items) root_folder_path [] =
        (cs @ map (file_node h root_folder_path root_folder_path) (sorted_files items),
         concat (map snd (scanned_folders h root_folder_path root_folder_path [] items)), None)"
    and cs: "map Inr cs = map fst (scanned_folders h root_folder_path root_folder_path [] items)"
    by (elim exE conjE) (rule that)
  from cs have "map Inr cs =
      map fst (take (length (scanned_folders h root_folder_path root_folder_path [] items))
        (scanned_folders h root_folder_path root_folder_path [] items))"
    by simp
  note fc = folder_children [OF this]
  from cs have "length cs = length (scanned_folders h root_folder_path root_folder_path [] items)"
    by (metis length_map)
  then have "length cs = 2"
    using arg_cong [OF folders, of length] by (simp add: scanned_folders_def)
  with fc(1) folders have names: "map node_name cs = [''Zeta'', ''alpha'']"
    by simp
  have "map (\<lambda>c. (node_name c, is_folder c)) cs = map (\<lambda>m. (m, True)) (map node_name cs)"
    using fc(2) by auto
  then have kinds: "map (\<lambda>c. (node_name c, is_folder c)) cs = [(''Zeta'', True), (''alpha'', True)]"
    by (simp only: names) simp
  let ?t = "Folder ''old-articles''
        (cs @ map (file_node h root_folder_path root_folder_path) [''A.txt'', ''b.txt''])"
  have "fst (generate_archive_index h (Dir items) root_folder_path) = Inr ?t"
    by (simp add: generate_returns body files)
  moreover have "map (\<lambda>c. (node_name c, is_folder c)) (node_children ?t) =
      [(''Zeta'', True), (''alpha'', True), (''A.txt'', False), (''b.txt'', False)]"
    using kinds by (simp add: file_node_def)
  ultimately show ?thesis
    by (intro exI [of _ ?t] conjI)
qed

theorem four_entries_order_witness:
  "\<exists>t. fst (generate_archive_index (plain_host CHR ''/'')
        (Dir [(''Zeta'', Dir []), (''b.txt'', RegularFile), (''alpha'', Unreadable PermissionError),
              (''A.txt'', RegularFile)])
        ''/srv/Old Articles'') = Inr t \<and>
      map (\<lambda>c. (node_name c, is_folder c)) (node_children t) =
        [(''Zeta'', True), (''alpha'', True), (''A.txt'', False), (''b.txt'', False)]"
proof -
  have items: "mset [(''Zeta'', Dir []), (''b.txt'', RegularFile),
        (''alpha'', Unreadable PermissionError), (''A.txt'', RegularFile)] =
      {#(''b.txt'', RegularFile), (''A.txt'', RegularFile), (''Zeta'', Dir []),
        (''alpha'', Unreadable PermissionError)#}"
    by simp
  have dirs: "isdir (Dir [])" "isdir (Unreadable PermissionError)"
    by simp_all
  have rel: "path_relpath (plain_host CHR ''/'')
        (path_join (plain_host CHR ''/'') ''/srv/Old Articles'' ''A.txt'') ''/srv/Old Articles'' =
      Inr ''A.txt''"
    "path_relpath (plain_host CHR ''/'')
        (path_join (plain_host CHR ''/'') ''/srv/Old Articles'' ''b.txt'') ''/srv/Old Articles'' =
      Inr ''b.txt''"
    by code_simp+
  show ?thesis
    by (rule four_entries_order [OF items dirs rel])
qed

subsection \<open>The paths of the file nodes\<close>

lemma joins_Cons: "joins h p (m # ns) = joins h (path_join h p m) ns"
  by (simp add: joins_def)

lemma joins_single: "joins h p [m] = path_join h p m"
  by (simp add: joins_def)

lemma file_entries_Folder:
  "(ns, f) \<in> set (file_entries (Folder n cs)) \<longleftrightarrow>
     (\<exists>c \<in> set cs.
        (is_file c \<and> ns = [] \<and> f = c) \<or>
        (is_folder c \<and> (\<exists>ms. ns = node_name c # ms \<and> (ms, f) \<in> set (file_entries c))))"
proof -
  have child: "(ns, f) \<in> set (case c of
          File m p \<Rightarrow> [([], c)]
        | Folder m ds \<Rightarrow> map (\<lambda>(ns, f). (m # ns, f)) (file_entries c)) \<longleftrightarrow>
      (is_file c \<and> ns = [] \<and> f = c) \<or>
      (is_folder c \<and> (\<exists>ms. ns = node_name c # ms \<and> (ms, f) \<in> set (file_entries c)))" for c
  proof (cases c)
    case (File m p)
    then show ?thesis by auto
  next
    case (Folder m ds)
    have "(ns, f) \<in> (\<lambda>(ns, f). (m # ns, f)) ` A \<longleftrightarrow> (\<exists>ms. ns = m # ms \<and> (ms, f) \<in> A)" for A
    proof
      assume "(ns, f) \<in> (\<lambda>(ns, f). (m # ns, f)) ` A"
      then show "\<exists>ms. ns = m # ms \<and> (ms, f) \<in> A"
        by auto
    next
      assume "\<exists>ms. ns = m # ms \<and> (ms, f) \<in> A"
      then obtain ms where "ns = m # ms" "(ms, f) \<in> A"
        by auto
      then show "(ns, f) \<in> (\<lambda>(ns, f). (m # ns, f)) ` A"
        by (intro image_eqI [of _ _ "(ms, f)"]) simp_all
    qed
    then show ?thesis
      unfolding Folder by (simp del: file_entries.simps)
  qed
  have "(ns, f) \<in> set (file_entries (Folder n cs)) \<longleftrightarrow>
      (\<exists>c \<in> set cs. (ns, f) \<in> set (case c of
          File m p \<Rightarrow> [([], c)]
        | Folder m ds \<Rightarrow> map (\<lambda>(ns, f). (m # ns, f)) (file_entries c)))"
    by simp
  then show ?thesis
    by (simp only: child)
qed

lemma file_locations_failed: "listdir fs = Inl e \<Longrightarrow> file_locations fs = []"
  by (simp add: file_locations.simps)

lemma file_locations_listed:
  assumes "listdir fs = Inr items"
  shows "ns \<in> set (file_locations fs) \<longleftrightarrow>
     (\<exists>(item, e) \<in> set items.
        (isdir e \<and> (\<exists>ms. ns = item # ms \<and> ms \<in> set (file_locations e))) \<or>
        (\<not> isdir e \<and> isfile e \<and> ns = [item]))"
  by (subst file_locations.simps) (auto simp: assms split: if_splits)

lemma sorted_files_mem:
  "m \<in> set (sorted_files items) \<longleftrightarrow> (\<exists>(item, e) \<in> set items. \<not> isdir e \<and> isfile e \<and> m = item)"
proof
  assume "m \<in> set (sorted_files items)"
  then obtain x where "x \<in> set items" "(case x of (item, e) \<Rightarrow> \<not> isdir e \<and> isfile e)" "m = fst x"
    by (auto simp: sorted_files_def)
  then show "\<exists>(item, e) \<in> set items. \<not> isdir e \<and> isfile e \<and> m = item"
    by (intro bexI [of _ x]) (simp_all add: case_prod_beta)
next
  assume "\<exists>(item, e) \<in> set items. \<not> isdir e \<and> isfile e \<and> m = item"
  then obtain e where "(m, e) \<in> set items" "\<not> isdir e" "isfile e"
    by auto
  then have "(m, e) \<in> set (filter (\<lambda>(item, e). \<not> isdir e \<and> isfile e) items)"
    by simp
  then have "fst (m, e) \<in> fst ` set (filter (\<lambda>(item, e). \<not> isdir e \<and> isfile e) items)"
    by (rule imageI)
  then show "m \<in> set (sorted_files items)"
    by (simp add: sorted_files_def)
qed

lemma built_from_mem:
  assumes "built_from h r p nodes files" and "f \<in> set nodes"
  shows "is_file f \<and> node_name f \<in> set files \<and>
     (\<exists>rel. path_relpath h (path_join h p (node_name f)) r = Inr rel \<and>
            node_path f = ''old-articles/'' @ str_replace (CHR 0x5C) CHR ''/'' rel)"
proof -
  from assms have "node_name f \<in> set (map node_name nodes)"
    by simp
  also from assms(1) have "map node_name nodes = take (length nodes) files"
    by (simp add: built_from_def)
  finally have "node_name f \<in> set files"
    by (rule in_set_takeD)
  with assms show ?thesis
    by (simp add: built_from_def)
qed

lemma scan_file_entries:
  "fst (scan_directory h r fs p ns n) = Inr t \<Longrightarrow> (ms, f) \<in> set (file_entries t) \<Longrightarrow>
   ms @ [node_name f] \<in> set (file_locations fs) \<and> is_file f \<and>
   (\<exists>rel. path_relpath h (joins h p (ms @ [node_name f])) r = Inr rel \<and>
          node_path f = ''old-articles/'' @ str_replace (CHR 0x5C) CHR ''/'' rel)"
proof (induction h r fs p ns n arbitrary: t ms rule: scan_directory.induct)
  case (1 h r fs p ns n)
  note t = scan_returns [OF "1.prems"(1)]
  show ?case
  proof (cases "listdir fs")
    case (Inl e)
    with t "1.prems"(2) show ?thesis
      by (simp add: try_body_unlisted)
  next
    case (Inr items)
    show ?thesis
    proof (cases "items \<noteq> [] \<and> stack_depth h < length ns")
      case True
      with t "1.prems"(2) show ?thesis
        by (simp add: try_body_too_deep [OF Inr True])
    next
      case False
      from try_body_shape [OF Inr, of h r p ns] obtain cs nodes k where
        shape: "fst (try_body h r fs p ns) = cs @ nodes"
          "map Inr cs = map fst (take k (scanned_folders h r p ns items))"
          "built_from h r p nodes (sorted_files items)"
        by (elim exE conjE) (rule that)
      note folders = folder_children [OF shape(2)]
      from t shape(1) "1.prems"(2) have "(ms, f) \<in> set (file_entries (Folder n (cs @ nodes)))"
        by simp
      then obtain c where
        c: "c \<in> set cs \<or> c \<in> set nodes"
          "(is_file c \<and> ms = [] \<and> f = c) \<or>
           (is_folder c \<and> (\<exists>ks. ms = node_name c # ks \<and> (ks, f) \<in> set (file_entries c)))"
        unfolding file_entries_Folder by auto
      from c(1) show ?thesis
      proof
        assume "c \<in> set cs"
        with folders(2) obtain folder d where
          mem: "(folder, d) \<in> set items" "isdir d"
          and c_folder: "is_folder c" "node_name c = folder"
          and ret: "fst (scan_directory h r d (path_join h p folder) (ns @ [folder]) folder) = Inr c"
          by auto
        from c_folder c(2) obtain ks where ks: "ms = folder # ks" "(ks, f) \<in> set (file_entries c)"
          by (cases c) auto
        from mem have "(folder, d) \<in> set (sort_key fst (filter (\<lambda>(item, e). isdir e) items))"
          by simp
        from "1.IH" [OF Inr False refl refl this refl ret ks(2)]
        have below: "ks @ [node_name f] \<in> set (file_locations d)" "is_file f"
          "\<exists>rel. path_relpath h (joins h (path_join h p folder) (ks @ [node_name f])) r = Inr rel \<and>
                 node_path f = ''old-articles/'' @ str_replace (CHR 0x5C) CHR ''/'' rel"
          by simp_all
        have "(folder # ks) @ [node_name f] \<in> set (file_locations fs)"
          unfolding file_locations_listed [OF Inr]
          using mem below(1) by (intro bexI [of _ "(folder, d)"]) simp_all
        moreover have "joins h p ((folder # ks) @ [node_name f]) =
            joins h (path_join h p folder) (ks @ [node_name f])"
          by (simp add: joins_Cons)
        ultimately show ?thesis
          using below(2,3) ks(1) by simp
      next
        assume in_nodes: "c \<in> set nodes"
        note built = built_from_mem [OF shape(3) in_nodes]
        from built c(2) have here: "ms = []" "f = c"
          by (cases c; simp)+
        from built obtain item e where
          entry: "(item, e) \<in> set items" "\<not> isdir e" "isfile e" "node_name c = item"
          unfolding sorted_files_mem by auto
        have "[node_name c] \<in> set (file_locations fs)"
          unfolding file_locations_listed [OF Inr]
          using entry by (intro bexI [of _ "(item, e)"]) simp_all
        with built here show ?thesis
          by (simp add: joins_single)
      qed
    qed
  qed
qed

lemma file_path_is_replaced_relpath:
  assumes "fst (generate_archive_index h rootfs root_folder_path) = Inr t"
    and "(ms, f) \<in> set (file_entries t)"
  shows "ms @ [node_name f] \<in> set (file_locations rootfs) \<and>
     (\<exists>rel. path_relpath h (joins h root_folder_path (ms @ [node_name f])) root_folder_path = Inr rel \<and>
            f = File (node_name f) (''old-articles/'' @ str_replace (CHR 0x5C) CHR ''/'' rel))"
proof -
  from assms(1) have "fst (scan_directory h root_folder_path rootfs root_folder_path []
      ''old-articles'') = Inr t"
    by (simp add: generate_structure)
  from scan_file_entries [OF this assms(2)]
  have "ms @ [node_name f] \<in> set (file_locations rootfs) \<and> is_file f \<and>
     (\<exists>rel. path_relpath h (joins h root_folder_path (ms @ [node_name f])) root_folder_path = Inr rel \<and>
            node_path f = ''old-articles/'' @ str_replace (CHR 0x5C) CHR ''/'' rel)" .
  then show ?thesis
    by (cases f) auto
qed

text \<open>
  Claim C1 says that the path of a file node is \<open>old-articles/\<close> followed by the
  relative path of the file from the scan root, with the backslash separators replaced
  by \<open>/\<close>. Line 54 replaces every backslash of what \<open>os.path.relpath\<close> returns,
  separator or not, although its comment (line 53) speaks of the backslashes of
  Windows. On a host whose separator is \<open>/\<close> a backslash is a character of a name.
  There the file of the root named \<open>a\<close>, backslash, \<open>b.txt\<close>, whose relative path
  is its name, gets the path \<open>old-articles/a/b.txt\<close>: this is not its relative path,
  and it is the path of the file \<open>b.txt\<close> of the folder \<open>a\<close>.
\<close>

theorem backslash_in_name_is_rewritten:
  "fst (generate_archive_index (plain_host CHR ''/'')
     (Dir [(''a'' @ CHR 0x5C # ''b.txt'', RegularFile), (''a'', Dir [(''b.txt'', RegularFile)])])
     ''/srv/site'') =
   Inr (Folder ''old-articles''
     [Folder ''a'' [File ''b.txt'' ''old-articles/a/b.txt''],
      File (''a'' @ CHR 0x5C # ''b.txt'') ''old-articles/a/b.txt'']) \<and>
   path_relpath (plain_host CHR ''/'')
     (path_join (plain_host CHR ''/'') ''/srv/site'' (''a'' @ CHR 0x5C # ''b.txt'')) ''/srv/site'' =
   Inr (''a'' @ CHR 0x5C # ''b.txt'')"
  by code_simp

subsection \<open>The entries that are skipped\<close>

text \<open>
  Claim C6 says that every entry that is neither a directory nor a regular file,
  symbolic links included, is skipped. \<open>os.path.isdir\<close> and \<open>os.path.isfile\<close>
  follow links: a link to a regular file gives a file node and a link to a directory
  gives a folder node; only the FIFO and the dangling link are skipped.
\<close>

theorem symlink_counterexample:
  "fst (scan_directory (plain_host CHR ''/'') ''/srv/site''
      (Dir [(''latest.txt'', Symlink RegularFile), (''mirror'', Symlink (Dir [])),
            (''fifo'', Special), (''gone'', Symlink Absent)])
      ''/srv/site'' [] ''old-articles'') =
   Inr (Folder ''old-articles''
     [Folder ''mirror'' [], File ''latest.txt'' ''old-articles/latest.txt''])"
  by code_simp

lemma split_entries:
  "mset (map fst (filter (\<lambda>(item, e). isdir e \<or> isfile e) items)) =
   mset (map fst (filter (\<lambda>(item, e). isdir e) items)) +
   mset (map fst (filter (\<lambda>(item, e). \<not> isdir e \<and> isfile e) items))"
  by (induction items) auto

lemma mset_take_subset: "mset (take k xs) \<subseteq># mset xs"
proof -
  have "mset xs = mset (take k xs) + mset (drop k xs)"
    by (metis append_take_drop_id mset_append)
  then show ?thesis by simp
qed

lemma mset_map_sort: "mset (map f (sort xs)) = mset (map f xs)"
  by simp

lemma skipped_entries_leave_no_trace:
  assumes "listdir fs = Inr items" and "length ns \<le> stack_depth h"
  shows "scan_directory h r fs p ns n =
     scan_directory h r (Dir (filter (\<lambda>(item, e). isdir e \<or> isfile e) items)) p ns n"
proof -
  let ?kept = "filter (\<lambda>(item, e). isdir e \<or> isfile e) items"
  have "filter (\<lambda>(item, e). isdir e) ?kept = filter (\<lambda>(item, e). isdir e) items"
    by (induction items) auto
  then have calls: "scanned_folders h r p ns ?kept = scanned_folders h r p ns items"
    by (simp add: scanned_folders_def)
  have "filter (\<lambda>(item, e). \<not> isdir e \<and> isfile e) ?kept =
      filter (\<lambda>(item, e). \<not> isdir e \<and> isfile e) items"
    by (induction items) auto
  then have files: "sorted_files ?kept = sorted_files items"
    by (simp add: sorted_files_def)
  from assms(2) have within: "\<not> (xs \<noteq> [] \<and> stack_depth h < length ns)"
    for xs :: "(string \<times> fsentry) list"
    by simp
  have "listdir (Dir ?kept) = Inr ?kept"
    by simp
  note kept_listed = this
  have "try_body h r (Dir ?kept) p ns = try_body h r fs p ns"
    unfolding try_body_listed [OF kept_listed within] try_body_listed [OF assms(1) within]
      calls files
    by (rule refl)
  then show ?thesis
    by (simp add: scan_unfold)
qed

text \<open>
  Claim C6, amended. In a call that gets as far as classifying the entries (the
  listing succeeds and the call is not deeper than the stack allows), an entry for
  which both \<open>os.path.isdir\<close> and \<open>os.path.isfile\<close> fail (a special file, a dangling
  link, a link to a special file) is skipped silently: the call returns the same node,
  or raises the same exception, and prints the same lines as on the listing without
  these entries. Every child node comes from an entry for which one of the two tests
  holds, a folder node from the former and a file node from the latter, so a link that
  resolves to a directory or to a regular file is classified as what it resolves to;
  the names of the children are, with multiplicity, among the names of those entries.
  When the warning of every subdirectory can be printed and \<open>os.path.relpath\<close> raises
  for no file, the children are exactly the nodes of those entries, and what the call
  prints is what the calls on its subdirectories print: no line for a skipped entry.
\<close>

theorem only_directories_and_files_contribute:
  assumes listed: "listdir fs = Inr items" and within: "length ns \<le> stack_depth h"
  shows "scan_directory h r fs p ns n =
           scan_directory h r (Dir (filter (\<lambda>(item, e). isdir e \<or> isfile e) items)) p ns n \<and>
         (\<forall>t. fst (scan_directory h r fs p ns n) = Inr t \<longrightarrow>
            (\<forall>c \<in> set (node_children t).
               \<exists>(item, e) \<in> set items. item = node_name c \<and>
                 (if is_folder c then isdir e else \<not> isdir e \<and> isfile e)) \<and>
            mset (map node_name (node_children t)) \<subseteq>#
              mset (map fst (filter (\<lambda>(item, e). isdir e \<or> isfile e) items))) \<and>
         ((\<forall>(item, e) \<in> set items. isdir e \<longrightarrow> \<not> print_raises h (ns @ [item])) \<and>
          (\<forall>f \<in> set (sorted_files items). \<exists>rel. path_relpath h (path_join h p f) r = Inr rel) \<longrightarrow>
            (\<exists>t. scan_directory h r fs p ns n =
                   (Inr t, concat (map snd (scanned_folders h r p ns items))) \<and>
                 mset (map (\<lambda>c. (node_name c, is_folder c)) (node_children t)) =
                   mset (map (\<lambda>(item, e). (item, isdir e))
                     (filter (\<lambda>(item, e). isdir e \<or> isfile e) items))))"
proof (intro conjI allI impI)
  show "scan_directory h r fs p ns n =
      scan_directory h r (Dir (filter (\<lambda>(item, e). isdir e \<or> isfile e) items)) p ns n"
    by (rule skipped_entries_leave_no_trace [OF assms])
next
  fix t
  assume ret: "fst (scan_directory h r fs p ns n) = Inr t"
  from try_body_shape [OF listed, of h r p ns] obtain cs nodes k where
    shape: "fst (try_body h r fs p ns) = cs @ nodes"
      "map Inr cs = map fst (take k (scanned_folders h r p ns items))"
      "built_from h r p nodes (sorted_files items)"
    by (elim exE conjE) (rule that)
  note folders = folder_children [OF shape(2)]
  from scan_returns [OF ret] shape(1) have children: "node_children t = cs @ nodes"
    by simp
  show "\<forall>c \<in> set (node_children t).
      \<exists>(item, e) \<in> set items. item = node_name c \<and>
        (if is_folder c then isdir e else \<not> isdir e \<and> isfile e)"
  proof
    fix c
    assume "c \<in> set (node_children t)"
    with children consider (sub) "c \<in> set cs" | (leaf) "c \<in> set nodes"
      by auto
    then show "\<exists>(item, e) \<in> set items. item = node_name c \<and>
        (if is_folder c then isdir e else \<not> isdir e \<and> isfile e)"
    proof cases
      case sub
      with folders(2) obtain folder d where
        "(folder, d) \<in> set items" "isdir d" "is_folder c" "node_name c = folder"
        by auto
      then show ?thesis
        by (intro bexI [of _ "(folder, d)"]) simp_all
    next
      case leaf
      note built = built_from_mem [OF shape(3) leaf]
      then obtain item e where
        entry: "(item, e) \<in> set items" "\<not> isdir e" "isfile e" "node_name c = item"
        unfolding sorted_files_mem by auto
      from built have "\<not> is_folder c"
        by (cases c) auto
      with entry show ?thesis
        by (intro bexI [of _ "(item, e)"]) simp_all
    qed
  qed
  have "map node_name (node_children t) =
      take (length cs) (sort (map fst (filter (\<lambda>(item, e). isdir e) items))) @
      take (length nodes) (sorted_files items)"
    using children folders(1) shape(3) by (simp add: built_from_def)
  moreover have "mset (take (length cs) (sort (map fst (filter (\<lambda>(item, e). isdir e) items)))) \<subseteq>#
      mset (map fst (filter (\<lambda>(item, e). isdir e) items))"
    using mset_take_subset [of "length cs" "sort (map fst (filter (\<lambda>(item, e). isdir e) items))"]
    by simp
  moreover have "mset (take (length nodes) (sorted_files items)) \<subseteq>#
      mset (map fst (filter (\<lambda>(item, e). \<not> isdir e \<and> isfile e) items))"
    using mset_take_subset [of "length nodes" "sorted_files items"]
    by (simp add: sorted_files_def)
  ultimately show "mset (map node_name (node_children t)) \<subseteq>#
      mset (map fst (filter (\<lambda>(item, e). isdir e \<or> isfile e) items))"
    unfolding split_entries by (simp add: subset_mset.add_mono)
next
  assume ok: "(\<forall>(item, e) \<in> set items. isdir e \<longrightarrow> \<not> print_raises h (ns @ [item])) \<and>
      (\<forall>f \<in> set (sorted_files items). \<exists>rel. path_relpath h (path_join h p f) r = Inr rel)"
  from within have not_deep: "\<not> (items \<noteq> [] \<and> stack_depth h < length ns)"
    by simp
  from children_when_no_error [OF listed not_deep conjunct1 [OF ok] conjunct2 [OF ok]]
  obtain cs where
    body: "try_body h r fs p ns =
        (cs @ map (file_node h r p) (sorted_files items),
         concat (map snd (scanned_folders h r p ns items)), None)"
    and cs: "map Inr cs = map fst (scanned_folders h r p ns items)"
    by (elim exE conjE) (rule that)
  let ?t = "Folder n (cs @ map (file_node h r p) (sorted_files items))"
  have scan: "scan_directory h r fs p ns n =
      (Inr ?t, concat (map snd (scanned_folders h r p ns items)))"
    by (simp add: scan_unfold body)
  from cs have "map Inr cs =
      map fst (take (length (scanned_folders h r p ns items)) (scanned_folders h r p ns items))"
    by simp
  note folders = folder_children [OF this]
  from cs have "length cs = length (scanned_folders h r p ns items)"
    by (metis length_map)
  then have "length cs = length (sort (map fst (filter (\<lambda>(item, e). isdir e) items)))"
    by (simp add: scanned_folders_def)
  with folders(1) have names: "map node_name cs = sort (map fst (filter (\<lambda>(item, e). isdir e) items))"
    by simp
  have "map (\<lambda>c. (node_name c, is_folder c)) cs = map (\<lambda>m. (m, True)) (map node_name cs)"
    using folders(2) by auto
  then have "mset (map (\<lambda>c. (node_name c, is_folder c)) cs) =
      mset (map (\<lambda>m. (m, True)) (map fst (filter (\<lambda>(item, e). isdir e) items)))"
    unfolding names by (simp only: mset_map_sort)
  also have "map (\<lambda>m. (m, True)) (map fst (filter (\<lambda>(item, e). isdir e) items)) =
      map (\<lambda>(item, e). (item, isdir e)) (filter (\<lambda>(item, e). isdir e) items)"
    by (induction items) auto
  finally have sub: "mset (map (\<lambda>c. (node_name c, is_folder c)) cs) =
      mset (map (\<lambda>(item, e). (item, isdir e)) (filter (\<lambda>(item, e). isdir e) items))"
    .
  have "map (\<lambda>c. (node_name c, is_folder c)) (map (file_node h r p) (sorted_files items)) =
      map (\<lambda>m. (m, False)) (sorted_files items)"
    by (simp add: file_node_def)
  then have "mset (map (\<lambda>c. (node_name c, is_folder c))
        (map (file_node h r p) (sorted_files items))) =
      mset (map (\<lambda>m. (m, False))
        (map fst (filter (\<lambda>(item, e). \<not> isdir e \<and> isfile e) items)))"
    by (simp only: sorted_files_def mset_map_sort)
  also have "map (\<lambda>m. (m, False))
        (map fst (filter (\<lambda>(item, e). \<not> isdir e \<and> isfile e) items)) =
      map (\<lambda>(item, e). (item, isdir e))
        (filter (\<lambda>(item, e). \<not> isdir e \<and> isfile e) items)"
    by (induction items) auto
  finally have leaf: "mset (map (\<lambda>c. (node_name c, is_folder c))
        (map (file_node h r p) (sorted_files items))) =
      mset (map (\<lambda>(item, e). (item, isdir e))
        (filter (\<lambda>(item, e). \<not> isdir e \<and> isfile e) items))"
    .
  have split: "mset (map (\<lambda>(item, e). (item, isdir e))
        (filter (\<lambda>(item, e). isdir e \<or> isfile e) items)) =
      mset (map (\<lambda>(item, e). (item, isdir e)) (filter (\<lambda>(item, e). isdir e) items)) +
      mset (map (\<lambda>(item, e). (item, isdir e))
        (filter (\<lambda>(item, e). \<not> isdir e \<and> isfile e) items))"
    by (induction items) auto
  have "mset (map (\<lambda>c. (node_name c, is_folder c)) (node_children ?t)) =
      mset (map (\<lambda>(item, e). (item, isdir e))
        (filter (\<lambda>(item, e). isdir e \<or> isfile e) items))"
    using sub leaf unfolding split by simp
  with scan show "\<exists>t. scan_directory h r fs p ns n =
        (Inr t, concat (map snd (scanned_folders h r p ns items))) \<and>
      mset (map (\<lambda>c. (node_name c, is_folder c)) (node_children t)) =
        mset (map (\<lambda>(item, e). (item, isdir e))
          (filter (\<lambda>(item, e). isdir e \<or> isfile e) items))"
    by (intro exI [of _ ?t] conjI)
qed

theorem only_directories_and_files_contribute_witness:
  "scan_directory (plain_host CHR ''/'') ''/srv/site''
      (Dir [(''latest.txt'', Symlink RegularFile), (''mirror'', Symlink (Dir [])),
            (''fifo'', Special), (''gone'', Symlink Absent)])
      ''/srv/site'' [] ''old-articles'' =
   scan_directory (plain_host CHR ''/'') ''/srv/site''
      (Dir [(''latest.txt'', Symlink RegularFile), (''mirror'', Symlink (Dir []))])
      ''/srv/site'' [] ''old-articles'' \<and>
   scan_directory (plain_host CHR ''/'') ''/srv/site''
      (Dir [(''latest.txt'', Symlink RegularFile), (''mirror'', Symlink (Dir [])),
            (''fifo'', Special), (''gone'', Symlink Absent)])
      ''/srv/site'' [] ''old-articles'' =
   (Inr (Folder ''old-articles''
      [Folder ''mirror'' [], File ''latest.txt'' ''old-articles/latest.txt'']), [])"
proof -
  let ?items = "[(''latest.txt'', Symlink RegularFile), (''mirror'', Symlink (Dir [])),
            (''fifo'', Special), (''gone'', Symlink Absent)]"
  have listed: "listdir (Dir ?items) = Inr ?items"
    by simp
  have within: "length ([] :: string list) \<le> stack_depth (plain_host CHR ''/'')"
    by simp
  from only_directories_and_files_contribute
    [OF listed within, of "''/srv/site''" "''/srv/site''" "''old-articles''"]
  have "scan_directory (plain_host CHR ''/'') ''/srv/site'' (Dir ?items)
      ''/srv/site'' [] ''old-articles'' =
    scan_directory (plain_host CHR ''/'') ''/srv/site''
      (Dir (filter (\<lambda>(item, e). isdir e \<or> isfile e) ?items)) ''/srv/site'' [] ''old-articles''"
    by (elim conjE)
  moreover have "scan_directory (plain_host CHR ''/'') ''/srv/site'' (Dir ?items)
      ''/srv/site'' [] ''old-articles'' =
    (Inr (Folder ''old-articles''
      [Folder ''mirror'' [], File ''latest.txt'' ''old-articles/latest.txt'']), [])"
    by code_simp
  ultimately show ?thesis
    by simp
qed

subsection \<open>The scan root and the order of the listings do not show in the tree\<close>

lemma isdir_canonical: "isdir (canonical e) = isdir e"
  by (induction e) auto

lemma isfile_canonical: "isfile (canonical e) = isfile e"
  by (induction e) auto

lemma listdir_canonical:
  "listdir (canonical fs) =
     (case listdir fs of
        Inl e \<Rightarrow> Inl e
      | Inr items \<Rightarrow> Inr (sort_key fst (map (map_prod id canonical) items)))"
  by (induction fs) auto

lemma insort_key_map_prod:
  "insort_key fst (map_prod id g x) (map (map_prod id g) ys) =
   map (map_prod id g) (insort_key fst x ys)"
  by (induction ys) auto

lemma sort_key_map_prod:
  "sort_key fst (map (map_prod id g) xs) = map (map_prod id g) (sort_key fst xs)"
  by (induction xs) (simp_all add: insort_key_map_prod insort_key_map_prod [unfolded id_def])

lemma sort_key_twice: "sort_key f (sort_key f xs) = sort_key f xs"
  by (rule sort_key_id_if_sorted) (rule sorted_sort_key)

lemma canonical_folders:
  "sort_key fst (filter (\<lambda>(item, e). isdir e)
     (sort_key fst (map (map_prod id canonical) items))) =
   map (map_prod id canonical) (sort_key fst (filter (\<lambda>(item, e). isdir e) items))"
proof -
  have moved: "filter (\<lambda>(item, e). isdir e) (map (map_prod id canonical) items) =
      map (map_prod id canonical) (filter (\<lambda>(item, e). isdir e) items)"
    by (induction items) (auto simp: isdir_canonical)
  have "sort_key fst (filter (\<lambda>(item, e). isdir e)
        (sort_key fst (map (map_prod id canonical) items))) =
      sort_key fst (filter (\<lambda>(item, e). isdir e) (map (map_prod id canonical) items))"
    by (simp only: filter_sort sort_key_twice)
  also have "\<dots> = sort_key fst (map (map_prod id canonical) (filter (\<lambda>(item, e). isdir e) items))"
    by (simp only: moved)
  also have "\<dots> = map (map_prod id canonical) (sort_key fst (filter (\<lambda>(item, e). isdir e) items))"
    by (rule sort_key_map_prod)
  finally show ?thesis .
qed

lemma canonical_files:
  "sorted_files (sort_key fst (map (map_prod id canonical) items)) = sorted_files items"
proof -
  have moved: "map fst (filter (\<lambda>(item, e). \<not> isdir e \<and> isfile e) (map (map_prod id canonical) items)) =
      map fst (filter (\<lambda>(item, e). \<not> isdir e \<and> isfile e) items)"
    by (induction items) (auto simp: isdir_canonical isfile_canonical)
  have "map fst (filter (\<lambda>(item, e). \<not> isdir e \<and> isfile e)
        (sort_key fst (map (map_prod id canonical) items))) =
      map fst (sort_key fst (filter (\<lambda>(item, e). \<not> isdir e \<and> isfile e)
        (map (map_prod id canonical) items)))"
    by (simp only: filter_sort)
  also have "\<dots> = sort (map fst (filter (\<lambda>(item, e). \<not> isdir e \<and> isfile e)
        (map (map_prod id canonical) items)))"
    by (rule sort_key_fst)
  also have "\<dots> = sort (map fst (filter (\<lambda>(item, e). \<not> isdir e \<and> isfile e) items))"
    by (simp only: moved)
  finally show ?thesis
    unfolding sorted_files_def by (simp only: sort_key_twice)
qed

lemma scan_canonical:
  "scan_directory h r (canonical fs) p ns n = scan_directory h r fs p ns n"
proof (induction h r fs p ns n rule: scan_directory.induct)
  case (1 h r fs p ns n)
  show ?case
  proof (cases "listdir fs")
    case (Inl e)
    then have "listdir (canonical fs) = Inl e"
      by (simp add: listdir_canonical)
    with Inl show ?thesis
      by (simp add: scan_listing_failed)
  next
    case (Inr items)
    let ?sorted = "sort_key fst (map (map_prod id canonical) items)"
    from Inr have listed: "listdir (canonical fs) = Inr ?sorted"
      by (simp add: listdir_canonical)
    have empty: "?sorted \<noteq> [] \<longleftrightarrow> items \<noteq> []"
      by (metis length_sort length_map length_0_conv)
    show ?thesis
    proof (cases "items \<noteq> [] \<and> stack_depth h < length ns")
      case True
      with empty have "?sorted \<noteq> [] \<and> stack_depth h < length ns"
        by simp
      from try_body_too_deep [OF listed this] try_body_too_deep [OF Inr True]
      show ?thesis
        by (simp add: scan_unfold)
    next
      case False
      with empty have not_deep: "\<not> (?sorted \<noteq> [] \<and> stack_depth h < length ns)"
        by simp
      let ?folders = "sort_key fst (filter (\<lambda>(item, e). isdir e) items)"
      have "scan_directory h r (canonical d) (path_join h p folder) (ns @ [folder]) folder =
          scan_directory h r d (path_join h p folder) (ns @ [folder]) folder"
        if "(folder, d) \<in> set ?folders" for folder d
        by (rule "1.IH" [OF Inr False refl refl that refl])
      then have "map (\<lambda>(folder, d).
            scan_directory h r (canonical d) (path_join h p folder) (ns @ [folder]) folder) ?folders =
          map (\<lambda>(folder, d).
            scan_directory h r d (path_join h p folder) (ns @ [folder]) folder) ?folders"
        by (intro map_cong refl) auto
      then have calls: "scanned_folders h r p ns ?sorted = scanned_folders h r p ns items"
        by (simp add: scanned_folders_def canonical_folders comp_def case_prod_beta)
      have "try_body h r (canonical fs) p ns = try_body h r fs p ns"
        unfolding try_body_listed [OF listed not_deep] try_body_listed [OF Inr False]
          calls canonical_files
        by (rule refl)
      then show ?thesis
        by (simp add: scan_unfold)
    qed
  qed
qed

lemma run_folders_cong:
  "map fst calls = map fst calls' \<Longrightarrow>
   fst (run_folders calls) = fst (run_folders calls') \<and>
   snd (snd (run_folders calls)) = snd (snd (run_folders calls'))"
proof (induction calls arbitrary: calls' rule: run_folders.induct)
  case 1
  then show ?case by simp
next
  case (2 e printed calls)
  then obtain printed' rest where "calls' = (Inl e, printed') # rest"
    by (cases calls') auto
  then show ?case by simp
next
  case (3 child printed calls)
  then obtain printed' rest where
    calls': "calls' = (Inr child, printed') # rest" "map fst calls = map fst rest"
    by (cases calls') auto
  from "3.IH" [OF calls'(2)] calls'(1) show ?case
    by (simp add: case_prod_beta)
qed

lemma process_files_same:
  "\<forall>f \<in> set files. path_relpath h (path_join h p1 f) r1 = path_relpath h (path_join h p2 f) r2 \<Longrightarrow>
   process_files h r1 p1 cs files = process_files h r2 p2 cs files"
  by (induction files arbitrary: cs) (simp_all split: sum.splits)

lemma scan_fst:
  "fst (scan_directory h r fs p ns n) =
     (if snd (snd (try_body h r fs p ns)) \<noteq> None \<and> print_raises h ns
      then Inl UnicodeEncodeError
      else Inr (Folder n (fst (try_body h r fs p ns))))"
  by (auto simp: scan_unfold split: prod.splits option.splits)

lemma scan_same_tree:
  "(\<And>ms. ms \<in> set (file_locations fs) \<Longrightarrow>
      path_relpath h (joins h p1 ms) r1 = path_relpath h (joins h p2 ms) r2) \<Longrightarrow>
   fst (scan_directory h r1 fs p1 ns n) = fst (scan_directory h r2 fs p2 ns n)"
proof (induction fs arbitrary: p1 p2 ns n rule: file_locations.induct)
  case (1 fs)
  show ?case
  proof (cases "listdir fs")
    case (Inl e)
    then show ?thesis
      by (simp add: scan_listing_failed)
  next
    case (Inr items)
    show ?thesis
    proof (cases "items \<noteq> [] \<and> stack_depth h < length ns")
      case True
      show ?thesis
        by (simp add: scan_fst try_body_too_deep [OF Inr True])
    next
      case False
      have sub: "fst (scan_directory h r1 d (path_join h p1 folder) (ns @ [folder]) folder) =
          fst (scan_directory h r2 d (path_join h p2 folder) (ns @ [folder]) folder)"
        if "(folder, d) \<in> set items" "isdir d" for folder d
      proof (rule "1.IH" [OF Inr that(1) refl that(2)])
        fix ms
        assume "ms \<in> set (file_locations d)"
        with that have "folder # ms \<in> set (file_locations fs)"
          unfolding file_locations_listed [OF Inr] by (intro bexI [of _ "(folder, d)"]) simp_all
        from "1.prems" [OF this]
        show "path_relpath h (joins h (path_join h p1 folder) ms) r1 =
            path_relpath h (joins h (path_join h p2 folder) ms) r2"
          by (simp add: joins_Cons)
      qed
      have "map fst (scanned_folders h r1 p1 ns items) = map fst (scanned_folders h r2 p2 ns items)"
        unfolding scanned_folders_def using sub by auto
      note folders = run_folders_cong [OF this]
      have "path_relpath h (path_join h p1 f) r1 = path_relpath h (path_join h p2 f) r2"
        if "f \<in> set (sorted_files items)" for f
      proof -
        from that obtain e where "(f, e) \<in> set items" "\<not> isdir e" "isfile e"
          unfolding sorted_files_mem by auto
        then have "[f] \<in> set (file_locations fs)"
          unfolding file_locations_listed [OF Inr] by (intro bexI [of _ "(f, e)"]) simp_all
        from "1.prems" [OF this] show ?thesis
          by (simp add: joins_single)
      qed
      then have files: "process_files h r1 p1 cs (sorted_files items) =
          process_files h r2 p2 cs (sorted_files items)" for cs
        by (intro process_files_same) simp
      have "fst (try_body h r1 fs p1 ns) = fst (try_body h r2 fs p2 ns) \<and>
          snd (snd (try_body h r1 fs p1 ns)) = snd (snd (try_body h r2 fs p2 ns))"
        using folders files
        by (simp add: try_body_listed [OF Inr False] case_prod_beta split: option.splits)
      then show ?thesis
        by (simp add: scan_fst)
    qed
  qed
qed

text \<open>
  Claim C9. Two scan roots with the same internal structure give the same tree. The
  two roots have the same structure when they hold the same names and entries at
  every level, in whatever order each of them lists a directory. If
  \<open>os.path.relpath\<close> returns the same relative path, under either root, for each
  regular file of the structure, then \<open>generate_archive_index\<close> returns the same tree
  for both roots. The tree depends on the root path through those relative paths
  only; the path of the root and its base name are not in it, and the order of the
  listings is undone by the two sorts.
\<close>

theorem output_independent_of_scan_root:
  assumes "canonical rootfs1 = canonical rootfs2"
    and "\<forall>ms \<in> set (file_locations rootfs1).
      path_relpath h (joins h root1 ms) root1 = path_relpath h (joins h root2 ms) root2"
  shows "fst (generate_archive_index h rootfs1 root1) = fst (generate_archive_index h rootfs2 root2)"
proof -
  have "fst (scan_directory h root1 rootfs1 root1 [] ''old-articles'') =
      fst (scan_directory h root2 rootfs1 root2 [] ''old-articles'')"
    using assms(2) by (intro scan_same_tree) simp
  also have "scan_directory h root2 rootfs1 root2 [] ''old-articles'' =
      scan_directory h root2 (canonical rootfs1) root2 [] ''old-articles''"
    by (simp add: scan_canonical)
  also have "\<dots> = scan_directory h root2 rootfs2 root2 [] ''old-articles''"
    by (simp add: assms(1) scan_canonical)
  finally show ?thesis
    by (simp add: generate_structure)
qed

theorem output_independent_of_scan_root_witness:
  "fst (generate_archive_index (plain_host CHR ''/'')
     (Dir [(''index.html'', RegularFile),
           (''News'', Dir [(''story.txt'', RegularFile), (''brief.txt'', RegularFile)]),
           (''Arts'', Dir [])])
     ''/home/ann/Old Articles'') =
   fst (generate_archive_index (plain_host CHR ''/'')
     (Dir [(''Arts'', Dir []),
           (''News'', Dir [(''brief.txt'', RegularFile), (''story.txt'', RegularFile)]),
           (''index.html'', RegularFile)])
     ''/srv/archive'')"
proof -
  have same: "canonical
     (Dir [(''index.html'', RegularFile),
           (''News'', Dir [(''story.txt'', RegularFile), (''brief.txt'', RegularFile)]),
           (''Arts'', Dir [])]) =
    canonical
     (Dir [(''Arts'', Dir []),
           (''News'', Dir [(''brief.txt'', RegularFile), (''story.txt'', RegularFile)]),
           (''index.html'', RegularFile)])"
    by code_simp
  have rel: "\<forall>ms \<in> set (file_locations
        (Dir [(''index.html'', RegularFile),
           (''News'', Dir [(''story.txt'', RegularFile), (''brief.txt'', RegularFile)]),
           (''Arts'', Dir [])])).
      path_relpath (plain_host CHR ''/'')
        (joins (plain_host CHR ''/'') ''/home/ann/Old Articles'' ms) ''/home/ann/Old Articles'' =
      path_relpath (plain_host CHR ''/'')
        (joins (plain_host CHR ''/'') ''/srv/archive'' ms) ''/srv/archive''"
    by code_simp
  show ?thesis
    by (rule output_independent_of_scan_root [OF same rel])
qed

subsection \<open>A subdirectory whose warning cannot be printed\<close>

text \<open>
  Claim C4 says that a subdirectory whose listing raises gives a warning and an empty
  folder, that its siblings are unaffected and that the run completes. The warning is
  printed inside the handler (lines 63 and 65) and that \<open>print\<close> can raise. The root
  here holds a subdirectory that cannot be listed and whose name ends with the byte
  E9, which standard output cannot encode, a subdirectory \<open>zoo\<close> with one file, and
  a file \<open>index.html\<close>. The exception of \<open>print\<close> leaves the call of line 45; the
  handler of the root catches it, and the root folder is returned with no children:
  without the folder that failed, without \<open>zoo\<close> and without \<open>index.html\<close>. The
  same root with the name \<open>cafe\<close> for the subdirectory gives what the claim says.
\<close>

theorem unprintable_warning_drops_siblings:
  "generate_archive_index (plain_host CHR ''/'')
     (Dir [(''caf'' @ [CHR 0xE9], Unreadable PermissionError),
           (''zoo'', Dir [(''lion.txt'', RegularFile)]),
           (''index.html'', RegularFile)])
     ''/srv/site'' =
   (Inr (Folder ''old-articles'' []),
    [Scanning_folder_structure,
     Warning_error_processing ''/srv/site'' UnicodeEncodeError,
     Found_files 0]) \<and>
   generate_archive_index (plain_host CHR ''/'')
     (Dir [(''cafe'', Unreadable PermissionError),
           (''zoo'', Dir [(''lion.txt'', RegularFile)]),
           (''index.html'', RegularFile)])
     ''/srv/site'' =
   (Inr (Folder ''old-articles''
      [Folder ''cafe'' [],
       Folder ''zoo'' [File ''lion.txt'' ''old-articles/zoo/lion.txt''],
       File ''index.html'' ''old-articles/index.html'']),
    [Scanning_folder_structure,
     Warning_permission_denied ''/srv/site/cafe'',
     Found_files 2])"
  by code_simp

subsection \<open>The host for concrete runs\<close>

lemma split_on_nonempty: "split_on c s \<noteq> []"
  by (induction s) (auto split: list.splits)

lemma split_on_plain: "c \<notin> set s \<Longrightarrow> split_on c s = [s]"
  by (induction s) auto

lemma split_on_append:
  "split_on c (a @ c # b) = split_on c a @ split_on c b"
  by (induction a) (auto split: list.splits simp: split_on_nonempty)

lemma split_on_trailing: "split_on c (a @ [c]) = split_on c a @ [[]]"
  using split_on_append [of c a "[]"] by simp

lemma components_join:
  assumes "m \<noteq> []" and "sep \<notin> set m"
  shows "filter (\<lambda>x. x \<noteq> []) (split_on sep (plain_join sep a m)) =
         filter (\<lambda>x. x \<noteq> []) (split_on sep a) @ [m]"
proof -
  from assms have head: "hd m \<noteq> sep"
    by (cases m) auto
  show ?thesis
  proof (cases "a = []")
    case True
    with assms head show ?thesis
      by (simp add: plain_join_def split_on_plain)
  next
    case False
    show ?thesis
    proof (cases "last a = sep")
      case True
      with False obtain b where "a = b @ [sep]"
        by (metis append_butlast_last_id)
      with assms head show ?thesis
        by (simp add: plain_join_def split_on_append split_on_trailing split_on_plain)
    next
      case False
      with \<open>a \<noteq> []\<close> assms head show ?thesis
        by (simp add: plain_join_def split_on_append split_on_plain)
    qed
  qed
qed

lemma components_joins:
  assumes "\<forall>m \<in> set ns. m \<noteq> [] \<and> sep \<notin> set m"
  shows "filter (\<lambda>x. x \<noteq> []) (split_on sep (joins (plain_host sep) a ns)) =
         filter (\<lambda>x. x \<noteq> []) (split_on sep a) @ ns"
  using assms
proof (induction ns arbitrary: a)
  case Nil
  show ?case by (simp add: joins_def)
next
  case (Cons m ns)
  have "path_join (plain_host sep) a m = plain_join sep a m"
    by (simp add: plain_host_def)
  with Cons show ?case
    by (simp add: joins_Cons components_join)
qed

lemma common_prefix_length_append: "common_prefix_length xs (xs @ ys) = length xs"
  by (induction xs) auto

lemma plain_relpath_joins:
  assumes "\<forall>m \<in> set ns. m \<noteq> [] \<and> sep \<notin> set m"
  shows "path_relpath (plain_host sep) (joins (plain_host sep) root_folder_path ns) root_folder_path =
         Inr (if ns = [] then ''.'' else join_with sep ns)"
proof -
  have "path_relpath (plain_host sep) q s = plain_relpath sep q s" for q s
    by (simp add: plain_host_def)
  then show ?thesis
    by (simp add: plain_relpath_def components_joins [OF assms] common_prefix_length_append)
qed

lemma plain_host_tree_independent_of_root:
  assumes "canonical rootfs1 = canonical rootfs2"
    and "\<forall>ns \<in> set (file_locations rootfs1). \<forall>m \<in> set ns. m \<noteq> [] \<and> sep \<notin> set m"
  shows "fst (generate_archive_index (plain_host sep) rootfs1 root1) =
         fst (generate_archive_index (plain_host sep) rootfs2 root2)"
proof -
  have "fst (scan_directory (plain_host sep) root1 rootfs1 root1 [] ''old-articles'') =
      fst (scan_directory (plain_host sep) root2 rootfs1 root2 [] ''old-articles'')"
    using assms(2) by (intro scan_same_tree) (simp add: plain_relpath_joins)
  also have "scan_directory (plain_host sep) root2 rootfs1 root2 [] ''old-articles'' =
      scan_directory (plain_host sep) root2 (canonical rootfs1) root2 [] ''old-articles''"
    by (simp add: scan_canonical)
  also have "\<dots> = scan_directory (plain_host sep) root2 rootfs2 root2 [] ''old-articles''"
    by (simp add: assms(1) scan_canonical)
  finally show ?thesis
    by (simp add: generate_structure)
qed

lemma str_replace_join_with:
  assumes "\<forall>m \<in> set ns. CHR 0x5C \<notin> set m"
  shows "str_replace (CHR 0x5C) CHR ''/'' (join_with (CHR 0x5C) ns) = join_with CHR ''/'' ns"
    and "str_replace (CHR 0x5C) CHR ''/'' (join_with CHR ''/'' ns) = join_with CHR ''/'' ns"
proof -
  have plain: "str_replace (CHR 0x5C) CHR ''/'' m = m" if "CHR 0x5C \<notin> set m" for m
    using that by (induction m) (auto simp: str_replace_def)
  have app: "str_replace a b (xs @ ys) = str_replace a b xs @ str_replace a b ys" for a b xs ys
    by (simp add: str_replace_def)
  show "str_replace (CHR 0x5C) CHR ''/'' (join_with (CHR 0x5C) ns) = join_with CHR ''/'' ns"
    using assms
    by (induction "CHR 0x5C :: char" ns rule: join_with.induct)
      (simp_all add: plain app, simp add: str_replace_def)
  show "str_replace (CHR 0x5C) CHR ''/'' (join_with CHR ''/'' ns) = join_with CHR ''/'' ns"
    using assms
    by (induction "CHR ''/''" ns rule: join_with.induct)
      (simp_all add: plain app, simp add: str_replace_def)
qed

lemma plain_host_file_paths:
  assumes tree: "fst (generate_archive_index (plain_host sep) rootfs root_folder_path) = Inr t"
    and entry: "(ns, f) \<in> set (file_entries t)"
    and sep: "sep = CHR ''/'' \<or> sep = CHR 0x5C"
    and names: "\<forall>ns \<in> set (file_locations rootfs).
      \<forall>m \<in> set ns. m \<noteq> [] \<and> sep \<notin> set m \<and> CHR 0x5C \<notin> set m"
  shows "node_path f = ''old-articles/'' @ join_with CHR ''/'' (ns @ [node_name f])"
proof -
  from tree have "fst (scan_directory (plain_host sep) root_folder_path rootfs root_folder_path []
      ''old-articles'') = Inr t"
    by (simp add: generate_structure)
  from scan_file_entries [OF this entry]
  have found: "ns @ [node_name f] \<in> set (file_locations rootfs)"
    and path: "\<exists>rel. path_relpath (plain_host sep)
        (joins (plain_host sep) root_folder_path (ns @ [node_name f])) root_folder_path = Inr rel \<and>
      node_path f = ''old-articles/'' @ str_replace (CHR 0x5C) CHR ''/'' rel"
    by simp_all
  from names found have plain: "\<forall>m \<in> set (ns @ [node_name f]). m \<noteq> [] \<and> sep \<notin> set m"
    and no_backslash: "\<forall>m \<in> set (ns @ [node_name f]). CHR 0x5C \<notin> set m"
    by blast+
  from path have "node_path f = ''old-articles/'' @
      str_replace (CHR 0x5C) CHR ''/'' (join_with sep (ns @ [node_name f]))"
    by (simp add: plain_relpath_joins [OF plain])
  with sep str_replace_join_with [OF no_backslash] show ?thesis
    by auto
qed

end
